theory Spec2Isabelle
  imports Complex_Main "HOL-Library.Word"
begin

unbundle bit_operations_syntax

section \<open>Data model of ping.cc\<close>

text \<open>
  The C types of the program: \<open>unsigned char\<close> is a byte, \<open>unsigned int\<close> a 32-bit
  word and \<open>unsigned long int\<close> (the byte counter, on an LP64 target) a 64-bit word.
  Arithmetic on them wraps around as in C.
\<close>

type_synonym byte = "8 word"
type_synonym uint = "32 word"
type_synonym ulong = "64 word"

definition PING_PACKET_DATA :: byte where
  "PING_PACKET_DATA = 59"

definition PING_PACKET_ACK :: byte where
  "PING_PACKET_ACK = 77"

text \<open>
  The locals \<open>ack_timeout\<close> and \<open>timespec\<close> of \<open>main\<close> are initialised once and never
  assigned again (no command-line option sets them).
\<close>

definition ack_timeout :: uint where
  "ack_timeout = 240000"

definition timespec :: uint where
  "timespec = 1000"

text \<open>
  The 8-byte frame header \<open>unsigned char [8]\<close>: bytes 0 and 1 carry the packet id, byte 2
  the packet type, bytes 3 to 7 are filled from \<open>rand()\<close>.
\<close>

record header =
  h0 :: byte
  h1 :: byte
  h2 :: byte
  fill :: "byte list"

text \<open>The options of the command line that the two loops read.\<close>

record config =
  num_packets :: uint
  max_num_attempts :: uint
  tx_payload_len :: uint

text \<open>
  What one call of \<open>iqpr_rxpacket\<close> hands back: its return value and the output
  parameters that the program reads.
\<close>

record rx_result =
  packet_received :: bool
  rx_header :: header
  rx_header_valid :: bool
  rx_payload_len :: uint
  rx_payload_valid :: bool

text \<open>
  The transport is an input of the program: \<open>rx k\<close> is the result of the \<open>k\<close>-th call of
  \<open>iqpr_rxpacket\<close> and \<open>rnd n\<close> the value of the \<open>n\<close>-th call of \<open>rand()\<close> (never
  negative in C).
\<close>

type_synonym transport = "nat \<Rightarrow> rx_result"
type_synonym rand_source = "nat \<Rightarrow> int"

section \<open>Frame headers\<close>

text \<open>\<open>rx_pid = (rx_header[0] << 8) | rx_header[1]\<close>\<close>

definition rx_pid_of :: "header \<Rightarrow> uint" where
  "rx_pid_of h = push_bit 8 (ucast (h0 h)) OR ucast (h1 h)"

text \<open>The five fill bytes \<open>tx_header[n] = rand() & 0xff\<close> for \<open>n = 3 .. 7\<close>.\<close>

definition rand_fill :: "rand_source \<Rightarrow> nat \<Rightarrow> byte list" where
  "rand_fill rnd n = map (\<lambda>i. word_of_int (rnd (n + i) AND 255)) [0..<5]"

text \<open>Lines 181 to 185: the header of a data packet.\<close>

definition data_header :: "rand_source \<Rightarrow> nat \<Rightarrow> uint \<Rightarrow> header" where
  "data_header rnd n tx_pid =
     \<lparr> h0 = ucast (drop_bit 8 tx_pid AND 255),
       h1 = ucast (tx_pid AND 255),
       h2 = PING_PACKET_DATA,
       fill = rand_fill rnd n \<rparr>"

text \<open>Lines 188 and 189: \<open>tx_payload[n] = rand() % 256\<close>.\<close>

definition data_payload :: "rand_source \<Rightarrow> nat \<Rightarrow> uint \<Rightarrow> byte list" where
  "data_payload rnd n len = map (\<lambda>i. word_of_int (rnd (n + i) mod 256)) [0..<unat len]"

text \<open>Lines 329 to 333: the header of an acknowledgement.\<close>

definition ack_header :: "rand_source \<Rightarrow> nat \<Rightarrow> header \<Rightarrow> header" where
  "ack_header rnd n rxh =
     \<lparr> h0 = h0 rxh,
       h1 = h1 rxh,
       h2 = PING_PACKET_ACK,
       fill = rand_fill rnd n \<rparr>"

text \<open>Lines 336 to 338: the ten bytes \<open>ack_payload[n] = rand() & 0xff\<close>.\<close>

definition ack_payload :: "rand_source \<Rightarrow> nat \<Rightarrow> byte list" where
  "ack_payload rnd n = map (\<lambda>i. word_of_int (rnd (n + i) AND 255)) [0..<10]"

section \<open>Master node\<close>

text \<open>
  Lines 229 to 246: the chain of tests on a received packet, with the id that line 227
  has just decoded from its header. Only the last branch sets \<open>ack_received\<close>.
\<close>

datatype verdict = HeaderError | TypeMismatch | PayloadError | IdMismatch | Accepted

definition master_check :: "uint \<Rightarrow> rx_result \<Rightarrow> verdict" where
  "master_check tx_pid r =
     (if \<not> rx_header_valid r then HeaderError
      else if h2 (rx_header r) \<noteq> PING_PACKET_ACK then TypeMismatch
      else if \<not> rx_payload_valid r then PayloadError
      else if rx_pid_of (rx_header r) \<noteq> tx_pid then IdMismatch
      else Accepted)"

text \<open>
  Lines 214 to 249: the loop \<open>while (!ack_received && timer < ack_timeout)\<close>. Its state
  is \<open>(ack_received, timer, k)\<close>, \<open>k\<close> the number of calls of \<open>iqpr_rxpacket\<close> made so far.
\<close>

function await_ack :: "transport \<Rightarrow> uint \<Rightarrow> bool \<times> uint \<times> nat \<Rightarrow> bool \<times> uint \<times> nat" where
  "await_ack rx tx_pid (ack, timer, k) =
     (if \<not> ack \<and> timer < ack_timeout then
        let r = rx k;
            timer' = timer + timespec;
            ack' = (if packet_received r then master_check tx_pid r = Accepted else ack)
        in await_ack rx tx_pid (ack', timer', Suc k)
      else (ack, timer, k))"
  by pat_completeness auto

lemma unat_timer_step:
  "timer < ack_timeout \<Longrightarrow> unat (timer + timespec) = unat timer + 1000"
  by (simp add: ack_timeout_def timespec_def word_less_nat_alt unat_word_ariths)

termination await_ack
proof (relation "measure (\<lambda>(rx, tx_pid, ack, timer, k). if ack then 0 else Suc (240000 - unat timer))")
  show "wf (measure (\<lambda>(rx, tx_pid, ack, timer, k). if ack then 0 else Suc (240000 - unat timer)))"
    by simp
next
  fix rx :: transport and tx_pid :: uint and ack :: bool and timer :: uint and k :: nat
    and r timer' ack'
  assume g: "\<not> ack \<and> timer < ack_timeout"
    and "timer' = timer + timespec"
  then have "unat timer' = unat timer + 1000" and "unat timer < 240000"
    by (simp_all add: unat_timer_step) (simp add: ack_timeout_def word_less_nat_alt)
  with g show "((rx, tx_pid, ack', timer', Suc k), (rx, tx_pid, ack, timer, k))
      \<in> measure (\<lambda>(rx, tx_pid, ack, timer, k). if ack then 0 else Suc (240000 - unat timer))"
    by (cases ack') simp_all
qed

declare await_ack.simps [simp del]


text \<open>
  The variables of \<open>main\<close> that the two loops update, together with what the run does
  to the outside: \<open>polls\<close> counts the calls of \<open>iqpr_rxpacket\<close>, \<open>rand_calls\<close> those of
  \<open>rand()\<close>, \<open>trace\<close> lists the calls of \<open>iqpr_txpacket\<close> and the accepted
  acknowledgements in order, and \<open>bailed\<close> says that line 263 was reached.
\<close>

datatype event =
    Transmit uint uint header "byte list"
  | AckOk uint
  | SendAck header "byte list"

record state =
  polls :: nat
  rand_calls :: nat
  num_bytes_received :: ulong
  num_attempts :: uint
  ack_received :: bool
  rx_pid :: uint
  bailed :: bool
  trace :: "event list"

definition init_state :: state where
  "init_state =
     \<lparr> polls = 0, rand_calls = 0, num_bytes_received = 0, num_attempts = 0,
       ack_received = False, rx_pid = 0, bailed = False, trace = [] \<rparr>"

text \<open>
  Line 227: every call of the wait that finds a packet assigns the id decoded from its
  header to \<open>rx_pid\<close>. \<open>received_pid rx pid k n\<close> is the value of \<open>rx_pid\<close> after the
  \<open>n\<close> calls from call \<open>k\<close> on, \<open>pid\<close> being its value before them.
\<close>

fun received_pid :: "transport \<Rightarrow> uint \<Rightarrow> nat \<Rightarrow> nat \<Rightarrow> uint" where
  "received_pid rx pid k 0 = pid"
| "received_pid rx pid k (Suc n) =
     received_pid rx
       (if packet_received (rx k) then rx_pid_of (rx_header (rx k)) else pid) (Suc k) n"

text \<open>
  Lines 195 to 249: one attempt. It counts the attempt, transmits the packet and waits
  for the acknowledgement with a timer that starts at 0. \<open>Transmit tx_pid n hdr payload\<close>
  is the call of \<open>iqpr_txpacket\<close> of attempt \<open>n\<close>. The wait makes the calls from
  \<open>polls s\<close> up to the call count that \<open>await_ack\<close> returns.
\<close>

definition attempt :: "transport \<Rightarrow> uint \<Rightarrow> header \<Rightarrow> byte list \<Rightarrow> state \<Rightarrow> state" where
  "attempt rx tx_pid hdr payload s =
     (let n = num_attempts s + 1;
          w = await_ack rx tx_pid (False, 0, polls s)
      in s\<lparr>num_attempts := n,
            trace := trace s @ [Transmit tx_pid n hdr payload],
            polls := snd (snd w),
            ack_received := fst w,
            rx_pid := received_pid rx (rx_pid s) (polls s) (snd (snd w) - polls s)\<rparr>)"

text \<open>
  Lines 194 to 260: the loop \<open>do { ... } while (!ack_received && num_attempts <
  max_num_attempts)\<close> for one packet. \<open>AckOk tx_pid\<close> marks the branch of line 251,
  which adds the payload length to the byte counter and leaves the loop.
\<close>

function attempts :: "config \<Rightarrow> transport \<Rightarrow> uint \<Rightarrow> header \<Rightarrow> byte list \<Rightarrow> state \<Rightarrow> state" where
  "attempts c rx tx_pid hdr payload s =
     (let s1 = attempt rx tx_pid hdr payload s
      in if ack_received s1 then
           s1\<lparr>num_bytes_received := num_bytes_received s1 + ucast (tx_payload_len c),
              trace := trace s1 @ [AckOk tx_pid]\<rparr>
         else if num_attempts s1 < max_num_attempts c then attempts c rx tx_pid hdr payload s1
         else s1)"
  by pat_completeness auto

lemma attempts_measure:
  fixes n m :: uint
  assumes "n < m"
  shows "unat (m - n - 1) < unat (m - n)"
proof -
  from assms have "m - n \<noteq> 0"
    by auto
  then have "unat (m - n - 1) = unat (m - n) - 1" and "0 < unat (m - n)"
    by (simp_all add: unat_minus_one unat_gt_0)
  then show ?thesis
    by simp
qed

lemma num_attempts_attempt:
  "num_attempts (attempt rx tx_pid hdr payload s) = num_attempts s + 1"
  by (simp add: attempt_def Let_def)

termination attempts
proof (relation "measure (\<lambda>(c, rx, tx_pid, hdr, payload, s). unat (max_num_attempts c - num_attempts s - 1))")
  show "wf (measure (\<lambda>(c, rx, tx_pid, hdr, payload, s). unat (max_num_attempts c - num_attempts s - 1)))"
    by simp
next
  fix c :: config and rx :: transport and tx_pid :: uint and hdr :: header
    and payload :: "byte list" and s s1 :: state
  assume "s1 = attempt rx tx_pid hdr payload s"
    and "num_attempts s1 < max_num_attempts c"
  then have "num_attempts s + 1 < max_num_attempts c" and "num_attempts s1 = num_attempts s + 1"
    by (simp_all add: num_attempts_attempt)
  then show "((c, rx, tx_pid, hdr, payload, s1), (c, rx, tx_pid, hdr, payload, s))
      \<in> measure (\<lambda>(c, rx, tx_pid, hdr, payload, s). unat (max_num_attempts c - num_attempts s - 1))"
    using attempts_measure [of "num_attempts s + 1" "max_num_attempts c"]
    by (simp add: diff_diff_add)
qed

declare attempts.simps [simp del]

text \<open>
  Lines 180 to 260: one pass of the loop over the packet ids, up to the end of the
  \<open>do ... while\<close>: a fresh header and payload, the counters reset, then the attempts.
\<close>

definition send_packet :: "config \<Rightarrow> transport \<Rightarrow> rand_source \<Rightarrow> uint \<Rightarrow> state \<Rightarrow> state" where
  "send_packet c rx rnd tx_pid s =
     (let hdr = data_header rnd (rand_calls s) tx_pid;
          payload = data_payload rnd (rand_calls s + 5) (tx_payload_len c);
          s0 = s\<lparr>rand_calls := rand_calls s + 5 + unat (tx_payload_len c),
                 ack_received := False, num_attempts := 0\<rparr>
      in attempts c rx tx_pid hdr payload s0)"

text \<open>
  Lines 178 to 266: \<open>for (tx_pid=0; tx_pid<num_packets; tx_pid++)\<close>, with the test of
  line 262 that leaves the loop.
\<close>

function master_loop :: "config \<Rightarrow> transport \<Rightarrow> rand_source \<Rightarrow> uint \<Rightarrow> state \<Rightarrow> state" where
  "master_loop c rx rnd tx_pid s =
     (if tx_pid < num_packets c then
        let s1 = send_packet c rx rnd tx_pid s
        in if num_attempts s1 = max_num_attempts c then s1\<lparr>bailed := True\<rparr>
           else master_loop c rx rnd (tx_pid + 1) s1
      else s)"
  by pat_completeness auto

lemma unat_pid_step:
  fixes tx_pid n :: uint
  shows "tx_pid < n \<Longrightarrow> unat (tx_pid + 1) = Suc (unat tx_pid)"
  by unat_arith

termination master_loop
proof (relation "measure (\<lambda>(c, rx, rnd, tx_pid, s). unat (num_packets c) - unat tx_pid)")
  show "wf (measure (\<lambda>(c, rx, rnd, tx_pid, s). unat (num_packets c) - unat tx_pid))"
    by simp
next
  fix c :: config and rx :: transport and rnd :: rand_source and tx_pid :: uint
    and s s1 :: state
  assume "tx_pid < num_packets c"
  then have "unat (tx_pid + 1) = Suc (unat tx_pid)" and "unat tx_pid < unat (num_packets c)"
    by (simp_all add: unat_pid_step word_less_nat_alt)
  then show "((c, rx, rnd, tx_pid + 1, s1), (c, rx, rnd, tx_pid, s))
      \<in> measure (\<lambda>(c, rx, rnd, tx_pid, s). unat (num_packets c) - unat tx_pid)"
    by simp
qed

declare master_loop.simps [simp del]

definition run_master :: "config \<Rightarrow> transport \<Rightarrow> rand_source \<Rightarrow> state" where
  "run_master c rx rnd = master_loop c rx rnd 0 init_state"

section \<open>Slave node\<close>

text \<open>
  The slave polls without a timeout, so its run need not end. It is run against the first
  \<open>limit\<close> answers of the transport: the result is \<open>Exited\<close> when the outer loop was
  left within them and \<open>Polling\<close>, with the state reached, when the program is still
  inside \<open>iqpr_rxpacket\<close> calls after them.
\<close>

datatype outcome = Exited state | Polling state

text \<open>
  Lines 277 to 288: \<open>do { packet_found = iqpr_rxpacket(...); } while (!packet_found)\<close>,
  from call number \<open>k\<close> on. The result is the number of the call that found a packet.
\<close>

function wait_packet :: "transport \<Rightarrow> nat \<Rightarrow> nat \<Rightarrow> nat option" where
  "wait_packet rx limit k =
     (if k < limit then
        (if packet_received (rx k) then Some k else wait_packet rx limit (Suc k))
      else None)"
  by pat_completeness auto
termination
  by (relation "measure (\<lambda>(rx, limit, k). limit - k)") auto

declare wait_packet.simps [simp del]

text \<open>
  Lines 290 to 344: the body of the outer loop once a packet was found. Each \<open>continue\<close>
  leaves the body early; in a \<open>do ... while\<close> it goes on at the loop condition.
\<close>

definition slave_body :: "rand_source \<Rightarrow> rx_result \<Rightarrow> state \<Rightarrow> state" where
  "slave_body rnd r s =
     (if \<not> rx_header_valid r then s
      else if h2 (rx_header r) \<noteq> PING_PACKET_DATA then s
      else
        let s1 = s\<lparr>rx_pid := rx_pid_of (rx_header r)\<rparr>
        in if \<not> rx_payload_valid r then s1
           else s1\<lparr>num_bytes_received := num_bytes_received s1 + ucast (rx_payload_len r),
                   rand_calls := rand_calls s1 + 15,
                   trace := trace s1 @
                     [SendAck (ack_header rnd (rand_calls s1) (rx_header r))
                              (ack_payload rnd (rand_calls s1 + 5))]\<rparr>)"

text \<open>
  Lines 275 to 346: the outer loop \<open>do { ... } while (rx_pid != num_packets-1)\<close>.
\<close>

function slave_loop :: "config \<Rightarrow> transport \<Rightarrow> rand_source \<Rightarrow> nat \<Rightarrow> state \<Rightarrow> outcome" where
  "slave_loop c rx rnd limit s =
     (case wait_packet rx limit (polls s) of
        None \<Rightarrow> Polling (s\<lparr>polls := limit\<rparr>)
      | Some k \<Rightarrow>
          let s1 = slave_body rnd (rx k) (s\<lparr>polls := Suc k\<rparr>)
          in if rx_pid s1 \<noteq> num_packets c - 1 then slave_loop c rx rnd limit s1
             else Exited s1)"
  by pat_completeness auto

lemma wait_packet_Some:
  "wait_packet rx limit k = Some j \<Longrightarrow> k \<le> j \<and> j < limit \<and> packet_received (rx j)"
proof (induction rx limit k rule: wait_packet.induct)
  case (1 rx limit k)
  show ?case
  proof (cases "k < limit \<and> \<not> packet_received (rx k)")
    case True
    with "1.prems" have "wait_packet rx limit (Suc k) = Some j"
      by (simp add: wait_packet.simps [of rx limit k])
    with True "1.IH" show ?thesis
      by simp
  next
    case False
    with "1.prems" show ?thesis
      by (simp add: wait_packet.simps [of rx limit k] split: if_splits)
  qed
qed

lemma polls_slave_body: "polls (slave_body rnd r s) = polls s"
  by (simp add: slave_body_def Let_def)

termination slave_loop
proof (relation "measure (\<lambda>(c, rx, rnd, limit, s). limit - polls s)")
  show "wf (measure (\<lambda>(c, rx, rnd, limit, s). limit - polls s))"
    by simp
next
  fix c :: config and rx :: transport and rnd :: rand_source and limit :: nat
    and s s1 :: state and k :: nat
  assume "wait_packet rx limit (polls s) = Some k"
    and "s1 = slave_body rnd (rx k) (s\<lparr>polls := Suc k\<rparr>)"
  then have "polls s \<le> k" and "k < limit" and "polls s1 = Suc k"
    by (simp_all add: polls_slave_body wait_packet_Some)
  then show "((c, rx, rnd, limit, s1), (c, rx, rnd, limit, s))
      \<in> measure (\<lambda>(c, rx, rnd, limit, s). limit - polls s)"
    by simp
qed

declare slave_loop.simps [simp del]

definition run_slave :: "config \<Rightarrow> transport \<Rightarrow> rand_source \<Rightarrow> nat \<Rightarrow> outcome" where
  "run_slave c rx rnd limit = slave_loop c rx rnd limit init_state"

section \<open>Statistics\<close>

text \<open>
  A value of the C type \<open>float\<close>: a finite real, one of the two infinities or NaN. The
  two zeros of IEEE 754 are not kept apart; \<open>Finite 0\<close> stands for \<open>+0\<close>, which is what
  the conversion of the integer 0 and the product and sum of such zeros give. The
  rounding of an exact finite result to single precision, overflow to an infinity
  included, is a parameter of the arithmetic.
\<close>

datatype c_float = Finite real | PosInf | NegInf | NaN

type_synonym rounding = "real \<Rightarrow> c_float"

text \<open>
  Addition, multiplication and division of \<open>float\<close> values. None of them traps: an
  infinity minus itself, zero times an infinity, zero by zero and an infinity by an
  infinity are NaN, and a finite value other than zero divided by zero is an infinity
  of its sign.
\<close>

fun fadd :: "rounding \<Rightarrow> c_float \<Rightarrow> c_float \<Rightarrow> c_float" where
  "fadd rd (Finite a) (Finite b) = rd (a + b)"
| "fadd rd NaN y = NaN"
| "fadd rd x NaN = NaN"
| "fadd rd PosInf NegInf = NaN"
| "fadd rd NegInf PosInf = NaN"
| "fadd rd PosInf y = PosInf"
| "fadd rd x PosInf = PosInf"
| "fadd rd NegInf y = NegInf"
| "fadd rd x NegInf = NegInf"

fun fmul :: "rounding \<Rightarrow> c_float \<Rightarrow> c_float \<Rightarrow> c_float" where
  "fmul rd (Finite a) (Finite b) = rd (a * b)"
| "fmul rd NaN y = NaN"
| "fmul rd x NaN = NaN"
| "fmul rd (Finite a) y =
     (if a = 0 then NaN else if (0 < a) = (y = PosInf) then PosInf else NegInf)"
| "fmul rd x (Finite b) =
     (if b = 0 then NaN else if (0 < b) = (x = PosInf) then PosInf else NegInf)"
| "fmul rd x y = (if x = y then PosInf else NegInf)"

fun fdiv :: "rounding \<Rightarrow> c_float \<Rightarrow> c_float \<Rightarrow> c_float" where
  "fdiv rd (Finite a) (Finite b) =
     (if b = 0 then (if a = 0 then NaN else if 0 < a then PosInf else NegInf)
      else rd (a / b))"
| "fdiv rd NaN y = NaN"
| "fdiv rd x NaN = NaN"
| "fdiv rd (Finite a) y = Finite 0"
| "fdiv rd x (Finite b) = (if (0 \<le> b) = (x = PosInf) then PosInf else NegInf)"
| "fdiv rd x y = NaN"

text \<open>The two readings of \<open>gettimeofday\<close>, \<open>timer0\<close> of line 170 and \<open>timer1\<close> of line 350.\<close>

record timeval =
  tv_sec :: int
  tv_usec :: int

text \<open>
  Lines 360 and 361: \<open>(float)(timer1.tv_sec - timer0.tv_sec) + (float)(timer1.tv_usec -
  timer0.tv_usec)*1e-6f\<close>. The differences are taken in \<open>long\<close>, far from its bounds
  for readings of a clock.
\<close>

definition runtime :: "rounding \<Rightarrow> timeval \<Rightarrow> timeval \<Rightarrow> c_float" where
  "runtime rd timer0 timer1 =
     fadd rd (rd (of_int (tv_sec timer1 - tv_sec timer0)))
       (fmul rd (rd (of_int (tv_usec timer1 - tv_usec timer0))) (rd (1 / 1000000)))"

text \<open>
  Line 362: \<open>8.0f * (float)(num_bytes_received) / runtime\<close>, the product first. No test
  of \<open>runtime\<close> comes before the division.
\<close>

definition data_rate :: "rounding \<Rightarrow> ulong \<Rightarrow> c_float \<Rightarrow> c_float" where
  "data_rate rd n rt = fdiv rd (fmul rd (rd 8) (rd (of_nat (unat n)))) rt"

text \<open>Line 363: \<open>data_rate / bandwidth\<close>.\<close>

definition spectral_efficiency :: "rounding \<Rightarrow> c_float \<Rightarrow> c_float \<Rightarrow> c_float" where
  "spectral_efficiency rd dr bandwidth = fdiv rd dr bandwidth"

section \<open>Observations of a run\<close>

text \<open>
  The received packet of call \<open>k\<close> takes the last branch of the master's tests, the one
  that sets \<open>ack_received\<close>.
\<close>

definition acceptable :: "transport \<Rightarrow> uint \<Rightarrow> nat \<Rightarrow> bool" where
  "acceptable rx tx_pid k = (packet_received (rx k) \<and> master_check tx_pid (rx k) = Accepted)"

text \<open>The packet ids of the master's transmissions, and those of its accepted
  acknowledgements, in the order of the trace.\<close>

fun transmitted :: "event list \<Rightarrow> uint list" where
  "transmitted [] = []"
| "transmitted (Transmit p n h pl # es) = p # transmitted es"
| "transmitted (e # es) = transmitted es"

fun acked :: "event list \<Rightarrow> uint list" where
  "acked [] = []"
| "acked (AckOk p # es) = p # acked es"
| "acked (e # es) = acked es"

text \<open>The headers of the acknowledgements that the slave transmitted.\<close>

fun sent_acks :: "event list \<Rightarrow> header list" where
  "sent_acks [] = []"
| "sent_acks (SendAck h pl # es) = h # sent_acks es"
| "sent_acks (e # es) = sent_acks es"

text \<open>The state that an outcome of the slave carries.\<close>

fun state_of :: "outcome \<Rightarrow> state" where
  "state_of (Exited s) = s"
| "state_of (Polling s) = s"

text \<open>
  The three tests that the slave makes on a packet it found (lines 290, 295 and 304) all
  let it through.
\<close>

definition data_accepted :: "rx_result \<Rightarrow> bool" where
  "data_accepted r =
     (rx_header_valid r \<and> h2 (rx_header r) = PING_PACKET_DATA \<and> rx_payload_valid r)"

text \<open>The three header bytes that carry information: the packet id and the type.\<close>

definition id_and_type :: "header \<Rightarrow> byte \<times> byte \<times> byte" where
  "id_and_type h = (h0 h, h1 h, h2 h)"

text \<open>
  Stated from the specification, not from \<open>master_check\<close>: the call found a valid ACK
  frame for packet id \<open>q\<close>, that is a packet with valid header, type ACK, valid payload
  and the id \<open>q\<close> in its first two header bytes, high byte first.
\<close>

definition is_ack_for :: "uint \<Rightarrow> rx_result \<Rightarrow> bool" where
  "is_ack_for q r =
     (packet_received r \<and> rx_header_valid r \<and> h2 (rx_header r) = PING_PACKET_ACK
      \<and> rx_payload_valid r
      \<and> 256 * unat (h0 (rx_header r)) + unat (h1 (rx_header r)) = unat q)"

text \<open>A frame with header \<open>h\<close> as the transport hands it over when both checks pass.\<close>

definition delivered :: "header \<Rightarrow> rx_result" where
  "delivered h =
     \<lparr> packet_received = True, rx_header = h, rx_header_valid = True,
       rx_payload_len = 10, rx_payload_valid = True \<rparr>"

text \<open>A \<open>float\<close> that is at least 1: a finite value from 1 on or the positive infinity.\<close>

fun at_least_one :: "c_float \<Rightarrow> bool" where
  "at_least_one (Finite y) = (1 \<le> y)"
| "at_least_one PosInf = True"
| "at_least_one x = False"

section \<open>Concrete inputs\<close>

definition no_packet :: rx_result where
  "no_packet =
     \<lparr> packet_received = False,
       rx_header = \<lparr> h0 = 0, h1 = 0, h2 = 0, fill = [] \<rparr>,
       rx_header_valid = False, rx_payload_len = 0, rx_payload_valid = False \<rparr>"

text \<open>A transport on which no call ever finds a packet.\<close>

definition silent_transport :: transport where
  "silent_transport k = no_packet"

definition zero_rand :: rand_source where
  "zero_rand n = 0"

text \<open>A run of more packets than 16 bits can number.\<close>

definition big_cfg :: config where
  "big_cfg = \<lparr> num_packets = 70000, max_num_attempts = 500, tx_payload_len = 200 \<rparr>"

text \<open>A valid acknowledgement of packet 0.\<close>

definition ack_frame_0 :: rx_result where
  "ack_frame_0 =
     \<lparr> packet_received = True,
       rx_header = \<lparr> h0 = 0, h1 = 0, h2 = 77, fill = [0, 0, 0, 0, 0] \<rparr>,
       rx_header_valid = True, rx_payload_len = 10, rx_payload_valid = True \<rparr>"

text \<open>Nothing during the first 240 calls, the acknowledgement of packet 0 at call 300.\<close>

definition late_ack_transport :: transport where
  "late_ack_transport k = (if k = 300 then ack_frame_0 else no_packet)"

definition retry_cfg :: config where
  "retry_cfg = \<lparr> num_packets = 3, max_num_attempts = 500, tx_payload_len = 200 \<rparr>"

text \<open>The option \<open>-N 0\<close> together with \<open>-A 1\<close>.\<close>

definition no_packets_cfg :: config where
  "no_packets_cfg = \<lparr> num_packets = 0, max_num_attempts = 1, tx_payload_len = 200 \<rparr>"

definition one_attempt_cfg :: config where
  "one_attempt_cfg = \<lparr> num_packets = 100, max_num_attempts = 1, tx_payload_len = 200 \<rparr>"

definition two_packets_one_attempt_cfg :: config where
  "two_packets_one_attempt_cfg = \<lparr> num_packets = 2, max_num_attempts = 1, tx_payload_len = 200 \<rparr>"

text \<open>The option \<open>-A 0\<close>.\<close>

definition zero_attempts_cfg :: config where
  "zero_attempts_cfg = \<lparr> num_packets = 2, max_num_attempts = 0, tx_payload_len = 200 \<rparr>"

text \<open>Every call finds the acknowledgement of packet 0.\<close>

definition prompt_ack_transport :: transport where
  "prompt_ack_transport k = ack_frame_0"

definition six_packets_cfg :: config where
  "six_packets_cfg = \<lparr> num_packets = 6, max_num_attempts = 500, tx_payload_len = 200 \<rparr>"

definition one_packet_cfg :: config where
  "one_packet_cfg = \<lparr> num_packets = 1, max_num_attempts = 500, tx_payload_len = 200 \<rparr>"

text \<open>A data packet with id 5 whose payload fails its check.\<close>

definition corrupt_last_data :: rx_result where
  "corrupt_last_data =
     \<lparr> packet_received = True,
       rx_header = \<lparr> h0 = 0, h1 = 5, h2 = 59, fill = [0, 0, 0, 0, 0] \<rparr>,
       rx_header_valid = True, rx_payload_len = 200, rx_payload_valid = False \<rparr>"

definition corrupt_last_transport :: transport where
  "corrupt_last_transport k = (if k = 0 then corrupt_last_data else no_packet)"

text \<open>A packet whose header fails its check.\<close>

definition garbled_frame :: rx_result where
  "garbled_frame =
     \<lparr> packet_received = True,
       rx_header = \<lparr> h0 = 0, h1 = 0, h2 = 59, fill = [0, 0, 0, 0, 0] \<rparr>,
       rx_header_valid = False, rx_payload_len = 200, rx_payload_valid = False \<rparr>"

definition garbled_transport :: transport where
  "garbled_transport k = (if k = 0 then garbled_frame else no_packet)"

text \<open>Three packets and two attempts each, for a transport that repeats one acknowledgement.\<close>

definition duplicates_cfg :: config where
  "duplicates_cfg = \<lparr> num_packets = 3, max_num_attempts = 2, tx_payload_len = 200 \<rparr>"

text \<open>
  The rounding that leaves a result as it is: what single precision does to the values
  it represents exactly, among them 0, 8, 200, 1600 and 200000.
\<close>

definition exact_results :: rounding where
  "exact_results x = Finite x"

text \<open>One reading of the clock, taken for both \<open>timer0\<close> and \<open>timer1\<close>.\<close>

definition same_reading :: timeval where
  "same_reading = \<lparr> tv_sec = 1288000000, tv_usec = 500000 \<rparr>"

section \<open>The wait for an acknowledgement\<close>

lemma await_ack_done: "await_ack rx tx_pid (True, timer, k) = (True, timer, k)"
  by (simp add: await_ack.simps)

lemma await_ack_expired:
  "\<not> timer < ack_timeout \<Longrightarrow> await_ack rx tx_pid (ack, timer, k) = (ack, timer, k)"
  by (simp add: await_ack.simps)

lemma await_ack_step:
  "timer < ack_timeout \<Longrightarrow>
   await_ack rx tx_pid (False, timer, k) =
     await_ack rx tx_pid (acceptable rx tx_pid k, timer + timespec, Suc k)"
  by (simp add: await_ack.simps [of rx tx_pid False timer k] acceptable_def Let_def)

lemma await_ack_silent:
  "unat timer + 1000 * n = 240000 \<Longrightarrow> \<forall>j<n. \<not> acceptable rx tx_pid (k + j) \<Longrightarrow>
   await_ack rx tx_pid (False, timer, k) = (False, ack_timeout, k + n)"
proof (induction n arbitrary: timer k)
  case 0
  then have "timer = ack_timeout"
    by (simp add: ack_timeout_def word_unat_eq_iff)
  then show ?case
    by (simp add: await_ack_expired)
next
  case (Suc n)
  then have lt: "timer < ack_timeout"
    by (simp add: ack_timeout_def word_less_nat_alt)
  from Suc.prems have no: "\<not> acceptable rx tx_pid k"
    by (metis add.right_neutral zero_less_Suc)
  from lt Suc.prems have "unat (timer + timespec) + 1000 * n = 240000"
    by (simp add: unat_timer_step)
  moreover from Suc.prems have "\<forall>j<n. \<not> acceptable rx tx_pid (Suc k + j)"
    by (metis Suc_less_eq add_Suc_shift)
  ultimately have "await_ack rx tx_pid (False, timer + timespec, Suc k) = (False, ack_timeout, Suc k + n)"
    by (rule Suc.IH)
  with lt no show ?case
    by (simp add: await_ack_step)
qed

lemma await_ack_found:
  "unat timer + 1000 * n = 240000 \<Longrightarrow> j < n \<Longrightarrow> acceptable rx tx_pid (k + j) \<Longrightarrow>
   \<forall>i<j. \<not> acceptable rx tx_pid (k + i) \<Longrightarrow>
   await_ack rx tx_pid (False, timer, k) = (True, timer + timespec * of_nat (Suc j), k + Suc j)"
proof (induction j arbitrary: timer k n)
  case 0
  then have lt: "timer < ack_timeout"
    by (simp add: ack_timeout_def word_less_nat_alt)
  with 0 show ?case
    by (simp add: await_ack_step await_ack_done)
next
  case (Suc j)
  then have lt: "timer < ack_timeout"
    by (simp add: ack_timeout_def word_less_nat_alt)
  from Suc.prems obtain m where n: "n = Suc m"
    by (cases n) simp_all
  from Suc.prems have no: "\<not> acceptable rx tx_pid k"
    by (metis add.right_neutral zero_less_Suc)
  from lt Suc.prems n have "unat (timer + timespec) + 1000 * m = 240000"
    by (simp add: unat_timer_step)
  moreover from Suc.prems n have "j < m" by simp
  moreover from Suc.prems have "acceptable rx tx_pid (Suc k + j)" by simp
  moreover from Suc.prems have "\<forall>i<j. \<not> acceptable rx tx_pid (Suc k + i)"
    by (metis Suc_less_eq add_Suc_shift)
  ultimately have "await_ack rx tx_pid (False, timer + timespec, Suc k)
      = (True, timer + timespec + timespec * of_nat (Suc j), Suc k + Suc j)"
    by (rule Suc.IH)
  with lt no show ?case
    by (simp add: await_ack_step algebra_simps)
qed


lemma find_upt_None:
  "find P [0..<n] = None \<longleftrightarrow> (\<forall>j<n. \<not> P j)"
  by (auto simp: find_None_iff)

lemma find_upt_Some:
  "find P [0..<n] = Some j \<Longrightarrow> j < n \<and> P j \<and> (\<forall>i<j. \<not> P i)"
  by (auto simp: find_Some_iff)

lemma await_ack_window:
  "await_ack rx tx_pid (False, 0, k) =
     (case find (\<lambda>j. acceptable rx tx_pid (k + j)) [0..<240] of
        None \<Rightarrow> (False, ack_timeout, k + 240)
      | Some j \<Rightarrow> (True, timespec * of_nat (Suc j), k + Suc j))"
proof (cases "find (\<lambda>j. acceptable rx tx_pid (k + j)) [0..<240]")
  case None
  then have "\<forall>j<240. \<not> acceptable rx tx_pid (k + j)"
    by (simp only: find_upt_None)
  then have "await_ack rx tx_pid (False, 0, k) = (False, ack_timeout, k + 240)"
    by (intro await_ack_silent) simp_all
  with None show ?thesis
    by simp
next
  case (Some j)
  then have "j < 240" and "acceptable rx tx_pid (k + j)"
    and "\<forall>i<j. \<not> acceptable rx tx_pid (k + i)"
    using find_upt_Some [of "\<lambda>j. acceptable rx tx_pid (k + j)" 240 j] by simp_all
  then have "await_ack rx tx_pid (False, 0, k) = (True, 0 + timespec * of_nat (Suc j), k + Suc j)"
    by (intro await_ack_found [where n = 240]) simp_all
  with Some show ?thesis
    by simp
qed

lemma await_ack_fst:
  "fst (await_ack rx p (False, 0, k)) = (\<exists>j<240. acceptable rx p (k + j))"
proof (cases "find (\<lambda>j. acceptable rx p (k + j)) [0..<240]")
  case None
  then have "\<not> (\<exists>j<240. acceptable rx p (k + j))"
    by (simp only: find_upt_None) simp
  with None show ?thesis
    by (simp add: await_ack_window)
next
  case (Some j)
  then have "j < 240 \<and> acceptable rx p (k + j)"
    using find_upt_Some [of "\<lambda>j. acceptable rx p (k + j)" 240 j] by simp
  then have "\<exists>j<240. acceptable rx p (k + j)"
    by blast
  with Some show ?thesis
    by (simp add: await_ack_window)
qed

section \<open>The attempts for one packet\<close>

lemma transmitted_append: "transmitted (xs @ ys) = transmitted xs @ transmitted ys"
  by (induction xs rule: transmitted.induct) simp_all

lemma acked_append: "acked (xs @ ys) = acked xs @ acked ys"
  by (induction xs rule: acked.induct) simp_all

lemma sent_acks_append: "sent_acks (xs @ ys) = sent_acks xs @ sent_acks ys"
  by (induction xs rule: sent_acks.induct) simp_all

lemma await_ack_sound:
  "fst (await_ack rx tx_pid (False, 0, k)) \<Longrightarrow> \<exists>j<240. acceptable rx tx_pid (k + j)"
  by (simp only: await_ack_fst)

lemma attempt_simps:
  "num_attempts (attempt rx p h pl s) = num_attempts s + 1"
  "trace (attempt rx p h pl s) = trace s @ [Transmit p (num_attempts s + 1) h pl]"
  "ack_received (attempt rx p h pl s) = fst (await_ack rx p (False, 0, polls s))"
  "polls (attempt rx p h pl s) = snd (snd (await_ack rx p (False, 0, polls s)))"
  "num_bytes_received (attempt rx p h pl s) = num_bytes_received s"
  "rand_calls (attempt rx p h pl s) = rand_calls s"
  "bailed (attempt rx p h pl s) = bailed s"
  "rx_pid (attempt rx p h pl s) =
     received_pid rx (rx_pid s) (polls s)
       (snd (snd (await_ack rx p (False, 0, polls s))) - polls s)"
  by (simp_all add: attempt_def Let_def)

lemma attempts_ack:
  "ack_received (attempt rx p h pl s) \<Longrightarrow>
   attempts c rx p h pl s =
     (attempt rx p h pl s)\<lparr>
        num_bytes_received := num_bytes_received s + ucast (tx_payload_len c),
        trace := trace s @ [Transmit p (num_attempts s + 1) h pl, AckOk p]\<rparr>"
  by (simp add: attempts.simps [of c rx p h pl s] Let_def attempt_simps)

lemma attempts_retry:
  "\<not> ack_received (attempt rx p h pl s) \<Longrightarrow> num_attempts s + 1 < max_num_attempts c \<Longrightarrow>
   attempts c rx p h pl s = attempts c rx p h pl (attempt rx p h pl s)"
  by (simp add: attempts.simps [of c rx p h pl s] Let_def attempt_simps)

lemma attempts_stop:
  "\<not> ack_received (attempt rx p h pl s) \<Longrightarrow> \<not> num_attempts s + 1 < max_num_attempts c \<Longrightarrow>
   attempts c rx p h pl s = attempt rx p h pl s"
  by (simp add: attempts.simps [of c rx p h pl s] Let_def attempt_simps)

lemma attempts_cases:
  obtains
    (ack) "ack_received (attempt rx p h pl s)"
  | (retry) "\<not> ack_received (attempt rx p h pl s)" "num_attempts s + 1 < max_num_attempts c"
  | (stop) "\<not> ack_received (attempt rx p h pl s)" "\<not> num_attempts s + 1 < max_num_attempts c"
  by blast

lemma attempts_trace:
  "\<exists>evs. trace (attempts c rx p h pl s) = trace s @ evs
      \<and> set (transmitted evs) \<subseteq> {p}
      \<and> acked evs = (if ack_received (attempts c rx p h pl s) then [p] else [])"
proof (induction c rx p h pl s rule: attempts.induct)
  case (1 c rx p h pl s)
  show ?case
  proof (cases rule: attempts_cases [where rx = rx and p = p and h = h and pl = pl and s = s and c = c])
    case ack
    then show ?thesis
      by (simp add: attempts_ack)
  next
    case retry
    then have "\<exists>evs. trace (attempts c rx p h pl (attempt rx p h pl s))
          = trace (attempt rx p h pl s) @ evs
        \<and> set (transmitted evs) \<subseteq> {p}
        \<and> acked evs = (if ack_received (attempts c rx p h pl (attempt rx p h pl s)) then [p] else [])"
      by (intro "1.IH") (simp_all add: attempt_simps)
    then obtain evs where
      "trace (attempts c rx p h pl (attempt rx p h pl s)) = trace (attempt rx p h pl s) @ evs"
      "set (transmitted evs) \<subseteq> {p}"
      "acked evs = (if ack_received (attempts c rx p h pl (attempt rx p h pl s)) then [p] else [])"
      by blast
    with retry show ?thesis
      by (simp add: attempts_retry attempt_simps transmitted_append acked_append)
  next
    case stop
    then show ?thesis
      by (simp add: attempts_stop attempt_simps)
  qed
qed

lemma attempts_bytes:
  "num_bytes_received (attempts c rx p h pl s) =
     num_bytes_received s + (if ack_received (attempts c rx p h pl s) then ucast (tx_payload_len c) else 0)"
proof (induction c rx p h pl s rule: attempts.induct)
  case (1 c rx p h pl s)
  show ?case
  proof (cases rule: attempts_cases [where rx = rx and p = p and h = h and pl = pl and s = s and c = c])
    case ack
    then show ?thesis
      by (simp add: attempts_ack)
  next
    case retry
    then have "num_bytes_received (attempts c rx p h pl (attempt rx p h pl s)) =
       num_bytes_received (attempt rx p h pl s) +
       (if ack_received (attempts c rx p h pl (attempt rx p h pl s)) then ucast (tx_payload_len c) else 0)"
      by (intro "1.IH") (simp_all add: attempt_simps)
    with retry show ?thesis
      by (simp add: attempts_retry attempt_simps)
  next
    case stop
    then show ?thesis
      by (simp add: attempts_stop attempt_simps)
  qed
qed

lemma attempts_frame:
  "rand_calls (attempts c rx p h pl s) = rand_calls s
   \<and> bailed (attempts c rx p h pl s) = bailed s"
proof (induction c rx p h pl s rule: attempts.induct)
  case (1 c rx p h pl s)
  show ?case
  proof (cases rule: attempts_cases [where rx = rx and p = p and h = h and pl = pl and s = s and c = c])
    case ack
    then show ?thesis
      by (simp add: attempts_ack attempt_simps)
  next
    case retry
    then have "rand_calls (attempts c rx p h pl (attempt rx p h pl s)) = rand_calls (attempt rx p h pl s)
      \<and> bailed (attempts c rx p h pl (attempt rx p h pl s)) = bailed (attempt rx p h pl s)"
      by (intro "1.IH") (simp_all add: attempt_simps)
    with retry show ?thesis
      by (simp add: attempts_retry attempt_simps)
  next
    case stop
    then show ?thesis
      by (simp add: attempts_stop attempt_simps)
  qed
qed

lemma attempts_ack_sound:
  "ack_received (attempts c rx p h pl s) \<Longrightarrow> \<exists>k. acceptable rx p k"
proof (induction c rx p h pl s rule: attempts.induct)
  case (1 c rx p h pl s)
  show ?case
  proof (cases rule: attempts_cases [where rx = rx and p = p and h = h and pl = pl and s = s and c = c])
    case ack
    then have "fst (await_ack rx p (False, 0, polls s))"
      by (simp add: attempt_simps)
    then show ?thesis
      using await_ack_sound by blast
  next
    case retry
    with "1.prems" have "ack_received (attempts c rx p h pl (attempt rx p h pl s))"
      by (simp add: attempts_retry)
    with retry show ?thesis
      by (intro "1.IH") (simp_all add: attempt_simps)
  next
    case stop
    with "1.prems" show ?thesis
      by (simp add: attempts_stop)
  qed
qed

lemma attempts_exhausted:
  "\<not> ack_received (attempts c rx p h pl s) \<Longrightarrow> num_attempts s < max_num_attempts c \<Longrightarrow>
   num_attempts (attempts c rx p h pl s) = max_num_attempts c"
proof (induction c rx p h pl s rule: attempts.induct)
  case (1 c rx p h pl s)
  show ?case
  proof (cases rule: attempts_cases [where rx = rx and p = p and h = h and pl = pl and s = s and c = c])
    case ack
    with "1.prems" show ?thesis
      by (simp add: attempts_ack)
  next
    case retry
    with "1.prems" have "\<not> ack_received (attempts c rx p h pl (attempt rx p h pl s))"
      by (simp add: attempts_retry)
    with retry have "num_attempts (attempts c rx p h pl (attempt rx p h pl s)) = max_num_attempts c"
      by (intro "1.IH") (simp_all add: attempt_simps)
    with retry show ?thesis
      by (simp add: attempts_retry)
  next
    case stop
    from "1.prems" stop have "num_attempts s + 1 = max_num_attempts c"
      by unat_arith
    with stop show ?thesis
      by (simp add: attempts_stop attempt_simps)
  qed
qed

section \<open>Packet ids in the header\<close>

lemma byte_mask: "(255 :: uint) = mask 8"
  by (simp add: mask_eq_exp_minus_1)

lemma rx_pid_of_take_bit: "take_bit 16 (rx_pid_of h) = rx_pid_of h"
  by (rule bit_word_eqI) (auto simp: rx_pid_of_def bit_simps dest: bit_imp_le_length)

lemma unat_take_bit_16:
  fixes p :: uint
  shows "unat (take_bit 16 p) = unat p mod 2 ^ 16"
  by (subst unsigned_take_bit_eq) (simp add: take_bit_eq_mod)

lemma rx_pid_of_less: "rx_pid_of h < 2 ^ 16"
proof -
  have "unat (take_bit 16 (rx_pid_of h)) < 2 ^ 16"
    by (simp only: unat_take_bit_16) simp
  then have "unat (rx_pid_of h) < 2 ^ 16"
    by (simp only: rx_pid_of_take_bit)
  then show ?thesis
    by (simp add: word_less_nat_alt)
qed

lemma rx_pid_of_data_header: "rx_pid_of (data_header rnd n p) = take_bit 16 p"
  by (rule bit_word_eqI) (auto simp: rx_pid_of_def data_header_def byte_mask bit_simps dest: bit_imp_le_length)

lemma rx_pid_of_ack_header: "rx_pid_of (ack_header rnd n h) = rx_pid_of h"
  by (simp add: rx_pid_of_def ack_header_def)

lemma unat_rx_pid_of_data_header: "unat (rx_pid_of (data_header rnd n p)) = unat p mod 2 ^ 16"
  by (simp only: rx_pid_of_data_header unat_take_bit_16)

lemma unat_byte_less:
  fixes x :: byte
  shows "unat x < 256"
  using unsigned_less [of x, where 'a = nat] by simp

lemma unat_ucast_byte:
  fixes x :: byte
  shows "unat (ucast x :: uint) = unat x"
  using unat_byte_less [of x] by (simp add: unsigned_ucast_eq take_bit_eq_mod)

lemma unat_shifted_byte:
  fixes x :: byte
  shows "unat (push_bit 8 (ucast x :: uint)) = 256 * unat x"
proof -
  have "unat (push_bit 8 (ucast x :: uint)) = (256 * unat (ucast x :: uint)) mod 2 ^ 32"
    by (simp add: push_bit_eq_mult unat_word_ariths mult.commute)
  also have "\<dots> = 256 * unat x"
    using unat_byte_less [of x] by (simp add: unat_ucast_byte)
  finally show ?thesis .
qed

lemma rx_pid_of_bytes: "unat (rx_pid_of h) = 256 * unat (h0 h) + unat (h1 h)"
proof -
  let ?a = "push_bit 8 (ucast (h0 h)) :: uint" and ?b = "ucast (h1 h) :: uint"
  have "?a + ?b = ?a OR ?b"
    by (rule disjunctive_add) (auto simp: bit_simps dest: bit_imp_le_length)
  then have "unat (rx_pid_of h) = unat (?a + ?b)"
    by (simp add: rx_pid_of_def)
  also have "\<dots> = (unat ?a + unat ?b) mod 2 ^ 32"
    by (simp add: unat_word_ariths)
  also have "\<dots> = 256 * unat (h0 h) + unat (h1 h)"
    using unat_byte_less [of "h0 h"] unat_byte_less [of "h1 h"]
    by (simp add: unat_shifted_byte unat_ucast_byte)
  finally show ?thesis .
qed

lemma data_header_bytes:
  "256 * unat (h0 (data_header rnd n p)) + unat (h1 (data_header rnd n p)) = unat p mod 2 ^ 16"
  using rx_pid_of_bytes [of "data_header rnd n p"]
  by (simp only: unat_rx_pid_of_data_header)

lemma acceptable_pid: "acceptable rx p k \<Longrightarrow> rx_pid_of (rx_header (rx k)) = p"
  by (simp add: acceptable_def master_check_def split: if_splits)

lemma acceptable_less: "acceptable rx p k \<Longrightarrow> p < 2 ^ 16"
  using acceptable_pid rx_pid_of_less by blast

section \<open>The loop over the packet ids\<close>

lemma send_packet_trace:
  "\<exists>evs. trace (send_packet c rx rnd p s) = trace s @ evs
      \<and> set (transmitted evs) \<subseteq> {p}
      \<and> acked evs = (if ack_received (send_packet c rx rnd p s) then [p] else [])"
  unfolding send_packet_def Let_def
  using attempts_trace [of c rx p _ _ "s\<lparr>rand_calls := rand_calls s + 5 + unat (tx_payload_len c),
                 ack_received := False, num_attempts := 0\<rparr>"]
  by simp

lemma send_packet_ack_sound:
  "ack_received (send_packet c rx rnd p s) \<Longrightarrow> \<exists>k. acceptable rx p k"
  unfolding send_packet_def Let_def by (rule attempts_ack_sound)

lemma send_packet_exhausted:
  "\<not> ack_received (send_packet c rx rnd p s) \<Longrightarrow> max_num_attempts c \<noteq> 0 \<Longrightarrow>
   num_attempts (send_packet c rx rnd p s) = max_num_attempts c"
  unfolding send_packet_def Let_def
  by (rule attempts_exhausted) (simp_all add: word_greater_zero_iff)

lemma send_packet_bailed: "bailed (send_packet c rx rnd p s) = bailed s"
  unfolding send_packet_def Let_def by (simp add: attempts_frame)

lemma master_loop_done:
  "\<not> p < num_packets c \<Longrightarrow> master_loop c rx rnd p s = s"
  by (simp add: master_loop.simps [of c rx rnd p s])

lemma master_loop_bail:
  "p < num_packets c \<Longrightarrow> num_attempts (send_packet c rx rnd p s) = max_num_attempts c \<Longrightarrow>
   master_loop c rx rnd p s = (send_packet c rx rnd p s)\<lparr>bailed := True\<rparr>"
  by (simp add: master_loop.simps [of c rx rnd p s] Let_def)

lemma master_loop_next:
  "p < num_packets c \<Longrightarrow> num_attempts (send_packet c rx rnd p s) \<noteq> max_num_attempts c \<Longrightarrow>
   master_loop c rx rnd p s = master_loop c rx rnd (p + 1) (send_packet c rx rnd p s)"
  by (simp add: master_loop.simps [of c rx rnd p s] Let_def)

lemma master_loop_cases:
  obtains
    (finished) "\<not> p < num_packets c"
  | (bail) "p < num_packets c" "num_attempts (send_packet c rx rnd p s) = max_num_attempts c"
  | (advance) "p < num_packets c" "num_attempts (send_packet c rx rnd p s) \<noteq> max_num_attempts c"
  by blast

lemma pid_succ_le:
  fixes p q n :: uint
  shows "p < n \<Longrightarrow> p + 1 \<le> q \<Longrightarrow> p < q"
  by unat_arith

lemma master_loop_trace:
  "\<exists>evs. trace (master_loop c rx rnd p s) = trace s @ evs
      \<and> (\<forall>q\<in>set (transmitted evs). p \<le> q)
      \<and> (\<forall>q\<in>set (acked evs). p \<le> q \<and> (\<exists>k. acceptable rx q k))
      \<and> sorted_wrt (<) (acked evs)"
proof (induction c rx rnd p s rule: master_loop.induct)
  case (1 c rx rnd p s)
  obtain evs1 where evs1: "trace (send_packet c rx rnd p s) = trace s @ evs1"
    "set (transmitted evs1) \<subseteq> {p}"
    "acked evs1 = (if ack_received (send_packet c rx rnd p s) then [p] else [])"
    using send_packet_trace by blast
  then have ack1: "\<forall>q\<in>set (acked evs1). q = p \<and> (\<exists>k. acceptable rx q k)"
    using send_packet_ack_sound [of c rx rnd p s] by (simp split: if_splits)
  show ?case
  proof (cases rule: master_loop_cases [where p = p and c = c and rx = rx and rnd = rnd and s = s])
    case finished
    then show ?thesis
      by (simp add: master_loop_done)
  next
    case bail
    then have "trace (master_loop c rx rnd p s) = trace s @ evs1"
      using evs1 by (simp add: master_loop_bail)
    moreover have "\<forall>q\<in>set (transmitted evs1). p \<le> q"
      using evs1 by auto
    moreover have "\<forall>q\<in>set (acked evs1). p \<le> q \<and> (\<exists>k. acceptable rx q k)"
      using ack1 by simp
    moreover have "sorted_wrt (<) (acked evs1)"
      using evs1 by simp
    ultimately show ?thesis
      by blast
  next
    case advance
    then have "\<exists>evs. trace (master_loop c rx rnd (p + 1) (send_packet c rx rnd p s))
          = trace (send_packet c rx rnd p s) @ evs
        \<and> (\<forall>q\<in>set (transmitted evs). p + 1 \<le> q)
        \<and> (\<forall>q\<in>set (acked evs). p + 1 \<le> q \<and> (\<exists>k. acceptable rx q k))
        \<and> sorted_wrt (<) (acked evs)"
      by (intro "1.IH") simp_all
    then obtain evs2 where evs2:
      "trace (master_loop c rx rnd (p + 1) (send_packet c rx rnd p s))
          = trace (send_packet c rx rnd p s) @ evs2"
      "\<forall>q\<in>set (transmitted evs2). p + 1 \<le> q"
      "\<forall>q\<in>set (acked evs2). p + 1 \<le> q \<and> (\<exists>k. acceptable rx q k)"
      "sorted_wrt (<) (acked evs2)"
      by blast
    from advance have lt: "\<And>q. p + 1 \<le> q \<Longrightarrow> p < q"
      using pid_succ_le [of p "num_packets c"] by simp
    then have le: "\<And>q. p + 1 \<le> q \<Longrightarrow> p \<le> q"
      by (simp add: order.strict_implies_order)
    have t2: "\<forall>q\<in>set (transmitted evs2). p \<le> q"
      using evs2(2) le by blast
    have a2: "\<forall>q\<in>set (acked evs2). p < q \<and> p \<le> q \<and> (\<exists>k. acceptable rx q k)"
      using evs2(3) lt le by blast
    have tr: "trace (master_loop c rx rnd p s) = trace s @ (evs1 @ evs2)"
      using advance evs1 evs2 by (simp add: master_loop_next)
    have a: "\<forall>q\<in>set (transmitted (evs1 @ evs2)). p \<le> q"
      using evs1(2) t2 by (auto simp: transmitted_append)
    have b: "\<forall>q\<in>set (acked (evs1 @ evs2)). p \<le> q \<and> (\<exists>k. acceptable rx q k)"
      using ack1 a2 by (auto simp: acked_append)
    have c: "sorted_wrt (<) (acked (evs1 @ evs2))"
      using ack1 evs1(3) evs2(4) a2 by (auto simp: acked_append sorted_wrt_append split: if_splits)
    from tr a b c show ?thesis
      by blast
  qed
qed

lemma master_loop_unacked_bails:
  assumes "p < num_packets c" and "max_num_attempts c \<noteq> 0"
    and "\<not> ack_received (send_packet c rx rnd p s)"
  shows "master_loop c rx rnd p s = (send_packet c rx rnd p s)\<lparr>bailed := True\<rparr>"
proof -
  from assms(2,3) have "num_attempts (send_packet c rx rnd p s) = max_num_attempts c"
    by (intro send_packet_exhausted)
  with assms(1) show ?thesis
    by (rule master_loop_bail)
qed

lemma pid_succ_le_bound:
  fixes p b n :: uint
  shows "p < b \<Longrightarrow> b < n \<Longrightarrow> p + 1 \<le> b"
  by unat_arith

lemma master_loop_bails_beyond_16_bits:
  "p \<le> 2 ^ 16 \<Longrightarrow> 2 ^ 16 < num_packets c \<Longrightarrow> max_num_attempts c \<noteq> 0 \<Longrightarrow>
   bailed (master_loop c rx rnd p s)"
proof (induction c rx rnd p s rule: master_loop.induct)
  case (1 c rx rnd p s)
  from "1.prems" have lt: "p < num_packets c"
    by simp
  show ?case
  proof (cases "num_attempts (send_packet c rx rnd p s) = max_num_attempts c")
    case True
    with lt show ?thesis
      by (simp add: master_loop_bail)
  next
    case False
    with "1.prems" have "ack_received (send_packet c rx rnd p s)"
      using send_packet_exhausted by blast
    then have "p < 2 ^ 16"
      using send_packet_ack_sound acceptable_less by blast
    with "1.prems" have "p + 1 \<le> 2 ^ 16"
      by (intro pid_succ_le_bound)
    with lt False "1.prems" have "bailed (master_loop c rx rnd (p + 1) (send_packet c rx rnd p s))"
      by (intro "1.IH") simp_all
    with lt False show ?thesis
      by (simp add: master_loop_next)
  qed
qed

section \<open>The loop of the slave\<close>

lemma slave_loop_waiting:
  "wait_packet rx limit (polls s) = None \<Longrightarrow>
   slave_loop c rx rnd limit s = Polling (s\<lparr>polls := limit\<rparr>)"
  by (simp add: slave_loop.simps [of c rx rnd limit s])

lemma slave_loop_exit:
  "wait_packet rx limit (polls s) = Some k \<Longrightarrow>
   rx_pid (slave_body rnd (rx k) (s\<lparr>polls := Suc k\<rparr>)) = num_packets c - 1 \<Longrightarrow>
   slave_loop c rx rnd limit s = Exited (slave_body rnd (rx k) (s\<lparr>polls := Suc k\<rparr>))"
  by (simp add: slave_loop.simps [of c rx rnd limit s] Let_def)

lemma slave_loop_again:
  "wait_packet rx limit (polls s) = Some k \<Longrightarrow>
   rx_pid (slave_body rnd (rx k) (s\<lparr>polls := Suc k\<rparr>)) \<noteq> num_packets c - 1 \<Longrightarrow>
   slave_loop c rx rnd limit s =
     slave_loop c rx rnd limit (slave_body rnd (rx k) (s\<lparr>polls := Suc k\<rparr>))"
  by (simp add: slave_loop.simps [of c rx rnd limit s] Let_def)

lemma wait_packet_None:
  "wait_packet rx limit k = None \<Longrightarrow> k \<le> i \<Longrightarrow> i < limit \<Longrightarrow> \<not> packet_received (rx i)"
proof (induction rx limit k rule: wait_packet.induct)
  case (1 rx limit k)
  from "1.prems" have kl: "k < limit"
    by simp
  with "1.prems" have np: "\<not> packet_received (rx k)" and nxt: "wait_packet rx limit (Suc k) = None"
    by (simp_all add: wait_packet.simps [of rx limit k] split: if_splits)
  show ?case
  proof (cases "i = k")
    case True
    with np show ?thesis by simp
  next
    case False
    with "1.prems" have "Suc k \<le> i" by simp
    with kl np nxt "1.prems" show ?thesis
      by (intro "1.IH") simp_all
  qed
qed

lemma wait_packet_skipped:
  "wait_packet rx limit k = Some j \<Longrightarrow> k \<le> i \<Longrightarrow> i < j \<Longrightarrow> \<not> packet_received (rx i)"
proof (induction rx limit k rule: wait_packet.induct)
  case (1 rx limit k)
  from "1.prems" have kl: "k < limit"
    by (simp add: wait_packet.simps [of rx limit k] split: if_splits)
  from "1.prems" have "k \<noteq> j"
    by simp
  with "1.prems" kl have np: "\<not> packet_received (rx k)" and nxt: "wait_packet rx limit (Suc k) = Some j"
    by (simp_all add: wait_packet.simps [of rx limit k] split: if_splits)
  show ?case
  proof (cases "i = k")
    case True
    with np show ?thesis by simp
  next
    case False
    with "1.prems" have "Suc k \<le> i" by simp
    with kl np nxt "1.prems" show ?thesis
      by (intro "1.IH") simp_all
  qed
qed

lemma slave_body_rx_pid:
  "rx_pid (slave_body rnd r s) = rx_pid s \<or> rx_pid (slave_body rnd r s) = rx_pid_of (rx_header r)"
  by (simp add: slave_body_def Let_def)

lemma slave_loop_never_exits:
  "2 ^ 16 < num_packets c \<Longrightarrow> rx_pid s < 2 ^ 16 \<Longrightarrow>
   \<exists>s'. slave_loop c rx rnd limit s = Polling s'"
proof (induction c rx rnd limit s rule: slave_loop.induct)
  case (1 c rx rnd limit s)
  show ?case
  proof (cases "wait_packet rx limit (polls s)")
    case None
    then show ?thesis
      by (simp add: slave_loop_waiting)
  next
    case (Some k)
    define s1 where "s1 = slave_body rnd (rx k) (s\<lparr>polls := Suc k\<rparr>)"
    have "rx_pid s1 = rx_pid s \<or> rx_pid s1 = rx_pid_of (rx_header (rx k))"
      using slave_body_rx_pid [of rnd "rx k" "s\<lparr>polls := Suc k\<rparr>"] by (simp add: s1_def)
    with "1.prems" have small: "rx_pid s1 < 2 ^ 16"
      using rx_pid_of_less [of "rx_header (rx k)"] by auto
    with "1.prems" have ne: "rx_pid s1 \<noteq> num_packets c - 1"
      by unat_arith
    with Some "1.prems" small have "\<exists>s'. slave_loop c rx rnd limit s1 = Polling s'"
      unfolding s1_def by (intro "1.IH") simp_all
    with Some ne show ?thesis
      by (simp add: slave_loop_again s1_def)
  qed
qed

lemma slave_body_accepted:
  "data_accepted r \<Longrightarrow>
   slave_body rnd r s =
     s\<lparr>rx_pid := rx_pid_of (rx_header r),
       num_bytes_received := num_bytes_received s + ucast (rx_payload_len r),
       rand_calls := rand_calls s + 15,
       trace := trace s @
         [SendAck (ack_header rnd (rand_calls s) (rx_header r))
                  (ack_payload rnd (rand_calls s + 5))]\<rparr>"
  by (simp add: slave_body_def data_accepted_def Let_def)

lemma slave_body_discarded:
  "\<not> data_accepted r \<Longrightarrow>
   trace (slave_body rnd r s) = trace s
   \<and> num_bytes_received (slave_body rnd r s) = num_bytes_received s
   \<and> rand_calls (slave_body rnd r s) = rand_calls s"
  by (auto simp add: slave_body_def data_accepted_def Let_def)

lemma slave_body_acks:
  "map id_and_type (sent_acks (trace (slave_body rnd r s))) =
   map id_and_type (sent_acks (trace s)) @
     (if data_accepted r then [(h0 (rx_header r), h1 (rx_header r), PING_PACKET_ACK)] else [])"
  by (cases "data_accepted r")
    (simp_all add: slave_body_accepted slave_body_discarded sent_acks_append
      id_and_type_def ack_header_def)

lemma slave_loop_polls:
  "polls s \<le> limit \<Longrightarrow>
   polls s \<le> polls (state_of (slave_loop c rx rnd limit s))
   \<and> polls (state_of (slave_loop c rx rnd limit s)) \<le> limit"
proof (induction c rx rnd limit s rule: slave_loop.induct)
  case (1 c rx rnd limit s)
  show ?case
  proof (cases "wait_packet rx limit (polls s)")
    case None
    with "1.prems" show ?thesis
      by (simp add: slave_loop_waiting)
  next
    case (Some k)
    then have k: "polls s \<le> k" "k < limit"
      by (simp_all add: wait_packet_Some)
    define s1 where "s1 = slave_body rnd (rx k) (s\<lparr>polls := Suc k\<rparr>)"
    then have p1: "polls s1 = Suc k"
      by (simp add: polls_slave_body)
    show ?thesis
    proof (cases "rx_pid s1 = num_packets c - 1")
      case True
      with Some k p1 show ?thesis
        by (simp add: slave_loop_exit s1_def)
    next
      case False
      with Some k p1 have "polls s1 \<le> polls (state_of (slave_loop c rx rnd limit s1))
          \<and> polls (state_of (slave_loop c rx rnd limit s1)) \<le> limit"
        unfolding s1_def by (intro "1.IH") simp_all
      with Some False k p1 show ?thesis
        by (simp add: slave_loop_again s1_def)
    qed
  qed
qed

lemma filter_upt_none:
  "(\<And>i. a \<le> i \<Longrightarrow> i < b \<Longrightarrow> \<not> P i) \<Longrightarrow> filter P [a..<b] = []"
  by (simp add: filter_empty_conv)

lemma slave_loop_acks:
  "polls s \<le> limit \<Longrightarrow>
   map id_and_type (sent_acks (trace (state_of (slave_loop c rx rnd limit s)))) =
   map id_and_type (sent_acks (trace s)) @
     map (\<lambda>k. (h0 (rx_header (rx k)), h1 (rx_header (rx k)), PING_PACKET_ACK))
       (filter (\<lambda>k. packet_received (rx k) \<and> data_accepted (rx k))
          [polls s..<polls (state_of (slave_loop c rx rnd limit s))])"
proof (induction c rx rnd limit s rule: slave_loop.induct)
  case (1 c rx rnd limit s)
  let ?P = "\<lambda>k. packet_received (rx k) \<and> data_accepted (rx k)"
  let ?f = "\<lambda>k. (h0 (rx_header (rx k)), h1 (rx_header (rx k)), PING_PACKET_ACK)"
  show ?case
  proof (cases "wait_packet rx limit (polls s)")
    case None
    then have "filter ?P [polls s..<limit] = []"
      by (intro filter_upt_none) (simp add: wait_packet_None)
    with None show ?thesis
      by (simp add: slave_loop_waiting)
  next
    case (Some k)
    then have k: "polls s \<le> k" "k < limit" "packet_received (rx k)"
      by (simp_all add: wait_packet_Some)
    from Some have skipped: "filter ?P [polls s..<k] = []"
      by (intro filter_upt_none) (simp add: wait_packet_skipped)
    define s1 where "s1 = slave_body rnd (rx k) (s\<lparr>polls := Suc k\<rparr>)"
    then have p1: "polls s1 = Suc k"
      by (simp add: polls_slave_body)
    have acks1: "map id_and_type (sent_acks (trace s1)) =
        map id_and_type (sent_acks (trace s)) @ map ?f (filter ?P [polls s..<Suc k])"
      using k skipped by (simp add: s1_def slave_body_acks)
    show ?thesis
    proof (cases "rx_pid s1 = num_packets c - 1")
      case True
      with Some have "slave_loop c rx rnd limit s = Exited s1"
        by (simp add: slave_loop_exit s1_def)
      with acks1 p1 show ?thesis
        by simp
    next
      case False
      with Some have eq: "slave_loop c rx rnd limit s = slave_loop c rx rnd limit s1"
        by (simp add: slave_loop_again s1_def)
      let ?st = "state_of (slave_loop c rx rnd limit s1)"
      from k p1 have le: "Suc k \<le> polls ?st"
        using slave_loop_polls [of s1 limit c rx rnd] by simp
      from Some False k p1 have "map id_and_type (sent_acks (trace ?st)) =
          map id_and_type (sent_acks (trace s1)) @ map ?f (filter ?P [polls s1..<polls ?st])"
        unfolding s1_def by (intro "1.IH") simp_all
      moreover from k le have "[polls s..<polls ?st] = [polls s..<Suc k] @ [Suc k..<polls ?st]"
        using upt_add_eq_append [of "polls s" "Suc k" "polls ?st - Suc k"] by simp
      ultimately show ?thesis
        using acks1 p1 by (simp add: eq del: upt_Suc)
    qed
  qed
qed

section \<open>Facts used by the claims\<close>

lemma master_check_Accepted:
  "(master_check k r = Accepted) =
     (rx_header_valid r \<and> h2 (rx_header r) = PING_PACKET_ACK \<and> rx_payload_valid r
      \<and> rx_pid_of (rx_header r) = k)"
  by (simp add: master_check_def)

lemma run_master_acked:
  "sorted_wrt (<) (acked (trace (run_master c rx rnd)))
   \<and> (\<forall>q\<in>set (acked (trace (run_master c rx rnd))). \<exists>k. acceptable rx q k)"
proof -
  obtain evs where "trace (master_loop c rx rnd 0 init_state) = trace init_state @ evs"
    and "\<forall>q\<in>set (acked evs). 0 \<le> q \<and> (\<exists>k. acceptable rx q k)"
    and "sorted_wrt (<) (acked evs)"
    using master_loop_trace [of c rx rnd 0 init_state] by blast
  moreover have "trace init_state = []"
    by (simp add: init_state_def)
  ultimately show ?thesis
    by (simp add: run_master_def)
qed

lemma master_check_beyond_16_bits: "2 ^ 16 \<le> p \<Longrightarrow> master_check p r \<noteq> Accepted"
proof
  assume "2 ^ 16 \<le> p" and "master_check p r = Accepted"
  then have "rx_pid_of (rx_header r) = p"
    by (simp add: master_check_Accepted)
  with \<open>2 ^ 16 \<le> p\<close> show False
    using rx_pid_of_less [of "rx_header r"] by simp
qed

lemma slave_terminal_unreachable:
  assumes "2 ^ 16 < num_packets c"
  shows "rx_pid_of h \<noteq> num_packets c - 1"
proof -
  have "rx_pid_of h < 2 ^ 16"
    by (rule rx_pid_of_less)
  with assms show ?thesis
    by unat_arith
qed

lemma not_received_not_acceptable: "\<not> packet_received (rx k) \<Longrightarrow> \<not> acceptable rx p k"
  by (simp add: acceptable_def)

lemma received_pid_none:
  "\<forall>j<n. \<not> packet_received (rx (k + j)) \<Longrightarrow> received_pid rx pid k n = pid"
proof (induction n arbitrary: k)
  case 0
  show ?case
    by simp
next
  case (Suc n)
  from Suc.prems have "\<not> packet_received (rx k)"
    by (metis add.right_neutral zero_less_Suc)
  moreover from Suc.prems have "\<forall>j<n. \<not> packet_received (rx (Suc k + j))"
    by (metis Suc_less_eq add_Suc_shift)
  then have "received_pid rx pid (Suc k) n = pid"
    by (rule Suc.IH)
  ultimately show ?case
    by simp
qed

lemma attempt_silent:
  assumes "\<forall>j<240. \<not> packet_received (rx (polls s + j))"
  shows "attempt rx p h pl s =
     s\<lparr>num_attempts := num_attempts s + 1,
       trace := trace s @ [Transmit p (num_attempts s + 1) h pl],
       polls := polls s + 240,
       ack_received := False\<rparr>"
proof -
  from assms have "\<forall>j<240. \<not> acceptable rx p (polls s + j)"
    by (simp add: not_received_not_acceptable)
  then have "await_ack rx p (False, 0, polls s) = (False, ack_timeout, polls s + 240)"
    by (intro await_ack_silent) simp_all
  moreover from assms have "received_pid rx (rx_pid s) (polls s) 240 = rx_pid s"
    by (rule received_pid_none)
  ultimately show ?thesis
    by (simp add: attempt_def Let_def)
qed

lemma count_list_above:
  fixes xs :: "uint list"
  shows "\<forall>q\<in>set xs. 1 \<le> q \<Longrightarrow> count_list xs 0 = 0"
  by (induction xs) auto

lemma send_packet_second_attempt:
  assumes "1 < max_num_attempts c"
    and "\<forall>k<240. \<not> packet_received (rx k)"
    and "j < 240" and "acceptable rx 0 (240 + j)"
  shows "\<exists>k pid. send_packet c rx rnd 0 init_state =
    init_state\<lparr>rand_calls := 5 + unat (tx_payload_len c),
       num_attempts := 2,
       polls := k,
       rx_pid := pid,
       ack_received := True,
       num_bytes_received := ucast (tx_payload_len c),
       trace := [Transmit 0 1 (data_header rnd 0 0) (data_payload rnd 5 (tx_payload_len c)),
                 Transmit 0 2 (data_header rnd 0 0) (data_payload rnd 5 (tx_payload_len c)),
                 AckOk 0]\<rparr>"
proof -
  let ?h = "data_header rnd 0 0" and ?pl = "data_payload rnd 5 (tx_payload_len c)"
  define s0 where "s0 = init_state\<lparr>rand_calls := 5 + unat (tx_payload_len c),
      ack_received := False, num_attempts := 0\<rparr>"
  have sp: "send_packet c rx rnd 0 init_state = attempts c rx 0 ?h ?pl s0"
    by (simp add: send_packet_def Let_def s0_def init_state_def)
  have p0: "polls s0 = 0"
    by (simp add: s0_def init_state_def)
  define s1 where "s1 = attempt rx 0 ?h ?pl s0"
  from assms(2) p0 have s1: "s1 = s0\<lparr>num_attempts := 1,
      trace := [Transmit 0 1 ?h ?pl], polls := 240, ack_received := False\<rparr>"
    unfolding s1_def by (subst attempt_silent) (simp_all add: s0_def init_state_def)
  with assms(1) have retry: "attempts c rx 0 ?h ?pl s0 = attempts c rx 0 ?h ?pl s1"
    unfolding s1_def by (subst attempts_retry) (simp_all add: s0_def init_state_def)
  from assms(3,4) have "fst (await_ack rx 0 (False, 0, 240))"
    by (auto simp: await_ack_fst)
  with s1 have ack: "ack_received (attempt rx 0 ?h ?pl s1)"
    by (simp add: attempt_simps)
  then have "attempts c rx 0 ?h ?pl s1 =
     (attempt rx 0 ?h ?pl s1)\<lparr>
        num_bytes_received := num_bytes_received s1 + ucast (tx_payload_len c),
        trace := trace s1 @ [Transmit 0 (num_attempts s1 + 1) ?h ?pl, AckOk 0]\<rparr>"
    by (rule attempts_ack)
  with ack sp retry show ?thesis
    by (simp add: s1 s0_def init_state_def attempt_def Let_def)
qed

lemma silent_transport_silent: "\<not> packet_received (silent_transport k)"
  by (simp add: silent_transport_def no_packet_def)

lemma send_packet_single_attempt:
  assumes "\<not> 1 < max_num_attempts c" and "\<forall>j<240. \<not> packet_received (rx (polls s + j))"
  shows "send_packet c rx rnd p s =
     s\<lparr>rand_calls := rand_calls s + 5 + unat (tx_payload_len c),
       num_attempts := 1,
       polls := polls s + 240,
       ack_received := False,
       trace := trace s @ [Transmit p 1 (data_header rnd (rand_calls s) p)
                  (data_payload rnd (rand_calls s + 5) (tx_payload_len c))]\<rparr>"
proof -
  let ?h = "data_header rnd (rand_calls s) p"
    and ?pl = "data_payload rnd (rand_calls s + 5) (tx_payload_len c)"
  define s0 where "s0 = s\<lparr>rand_calls := rand_calls s + 5 + unat (tx_payload_len c),
      ack_received := False, num_attempts := 0\<rparr>"
  from assms(2) have a: "attempt rx p ?h ?pl s0 =
      s0\<lparr>num_attempts := 1, trace := trace s @ [Transmit p 1 ?h ?pl],
         polls := polls s + 240, ack_received := False\<rparr>"
    by (subst attempt_silent) (simp_all add: s0_def)
  with assms(1) have "attempts c rx p ?h ?pl s0 = attempt rx p ?h ?pl s0"
    by (intro attempts_stop) (simp_all add: s0_def)
  with a show ?thesis
    by (simp add: send_packet_def Let_def s0_def)
qed

lemma acceptable_prompt: "acceptable prompt_ack_transport 0 k"
  by (simp add: acceptable_def prompt_ack_transport_def ack_frame_0_def master_check_def
      rx_pid_of_def PING_PACKET_ACK_def)

lemma master_check_bytes:
  "(master_check k r = Accepted) =
     (rx_header_valid r \<and> h2 (rx_header r) = PING_PACKET_ACK \<and> rx_payload_valid r
      \<and> 256 * unat (h0 (rx_header r)) + unat (h1 (rx_header r)) = unat k)"
  by (simp add: master_check_Accepted word_unat_eq_iff rx_pid_of_bytes)

lemma acceptable_is_ack_for: "acceptable rx q k = is_ack_for q (rx k)"
  by (simp add: acceptable_def is_ack_for_def master_check_bytes)

lemma master_check_delivered:
  "master_check q (delivered (ack_header rnd' m (data_header rnd n p))) =
     (if unat q = unat p mod 2 ^ 16 then Accepted else IdMismatch)"
proof -
  have "(rx_pid_of (ack_header rnd' m (data_header rnd n p)) = q) = (unat q = unat p mod 2 ^ 16)"
    using unat_rx_pid_of_data_header [of rnd n p]
    by (auto simp: rx_pid_of_ack_header word_unat_eq_iff)
  then show ?thesis
    by (simp add: master_check_def delivered_def ack_header_def)
qed

lemma await_ack_bounds:
  "k \<le> snd (snd (await_ack rx p (False, 0, k)))
   \<and> (fst (await_ack rx p (False, 0, k)) \<longrightarrow>
        (\<exists>j. k \<le> j \<and> j < snd (snd (await_ack rx p (False, 0, k))) \<and> acceptable rx p j))"
proof (cases "find (\<lambda>j. acceptable rx p (k + j)) [0..<240]")
  case None
  then show ?thesis
    by (simp add: await_ack_window)
next
  case (Some j)
  then have "acceptable rx p (k + j)"
    using find_upt_Some [of "\<lambda>j. acceptable rx p (k + j)" 240 j] by simp
  then have "\<exists>i. k \<le> i \<and> i < k + Suc j \<and> acceptable rx p i"
    by (intro exI [of _ "k + j"]) simp
  with Some show ?thesis
    by (simp add: await_ack_window)
qed

lemma attempt_bounds:
  "polls s \<le> polls (attempt rx p h pl s)
   \<and> (ack_received (attempt rx p h pl s) \<longrightarrow>
        (\<exists>j. polls s \<le> j \<and> j < polls (attempt rx p h pl s) \<and> acceptable rx p j))"
  using await_ack_bounds [of "polls s" rx p] by (simp add: attempt_simps)

lemma attempts_bounds:
  "polls s \<le> polls (attempts c rx p h pl s)
   \<and> (ack_received (attempts c rx p h pl s) \<longrightarrow>
        (\<exists>j. polls s \<le> j \<and> j < polls (attempts c rx p h pl s) \<and> acceptable rx p j))"
proof (induction c rx p h pl s rule: attempts.induct)
  case (1 c rx p h pl s)
  note one = attempt_bounds [of s rx p h pl]
  show ?case
  proof (cases rule: attempts_cases [where rx = rx and p = p and h = h and pl = pl and s = s and c = c])
    case ack
    with one show ?thesis
      by (simp add: attempts_ack)
  next
    case retry
    then have "polls (attempt rx p h pl s) \<le> polls (attempts c rx p h pl (attempt rx p h pl s))
      \<and> (ack_received (attempts c rx p h pl (attempt rx p h pl s)) \<longrightarrow>
          (\<exists>j. polls (attempt rx p h pl s) \<le> j
             \<and> j < polls (attempts c rx p h pl (attempt rx p h pl s)) \<and> acceptable rx p j))"
      by (intro "1.IH") (simp_all add: attempt_simps)
    with one have "polls s \<le> polls (attempts c rx p h pl (attempt rx p h pl s))
      \<and> (ack_received (attempts c rx p h pl (attempt rx p h pl s)) \<longrightarrow>
          (\<exists>j. polls s \<le> j
             \<and> j < polls (attempts c rx p h pl (attempt rx p h pl s)) \<and> acceptable rx p j))"
      by (meson order_trans)
    with retry show ?thesis
      by (simp add: attempts_retry)
  next
    case stop
    with one show ?thesis
      by (simp add: attempts_stop)
  qed
qed

lemma send_packet_bounds:
  "polls s \<le> polls (send_packet c rx rnd p s)
   \<and> (ack_received (send_packet c rx rnd p s) \<longrightarrow>
        (\<exists>j. j < polls (send_packet c rx rnd p s) \<and> acceptable rx p j))"
proof -
  let ?s0 = "s\<lparr>rand_calls := rand_calls s + 5 + unat (tx_payload_len c),
      ack_received := False, num_attempts := 0\<rparr>"
  let ?h = "data_header rnd (rand_calls s) p"
    and ?pl = "data_payload rnd (rand_calls s + 5) (tx_payload_len c)"
  have sp: "send_packet c rx rnd p s = attempts c rx p ?h ?pl ?s0"
    by (simp add: send_packet_def Let_def)
  have "polls ?s0 = polls s"
    by simp
  with attempts_bounds [of ?s0 c rx p ?h ?pl] show ?thesis
    unfolding sp by auto
qed

lemma master_loop_acked_within:
  "polls s \<le> polls (master_loop c rx rnd p s)
   \<and> (\<exists>evs. trace (master_loop c rx rnd p s) = trace s @ evs
        \<and> (\<forall>q\<in>set (acked evs). \<exists>j<polls (master_loop c rx rnd p s). acceptable rx q j))"
proof (induction c rx rnd p s rule: master_loop.induct)
  case (1 c rx rnd p s)
  let ?s1 = "send_packet c rx rnd p s"
  obtain evs1 where evs1: "trace ?s1 = trace s @ evs1"
    "acked evs1 = (if ack_received ?s1 then [p] else [])"
    using send_packet_trace by blast
  note b1 = send_packet_bounds [of s c rx rnd p]
  from evs1 b1 have a1: "\<forall>q\<in>set (acked evs1). \<exists>j<polls ?s1. acceptable rx q j"
    by (simp split: if_splits)
  show ?case
  proof (cases rule: master_loop_cases [where p = p and c = c and rx = rx and rnd = rnd and s = s])
    case finished
    then show ?thesis
      by (simp add: master_loop_done)
  next
    case bail
    then have eq: "master_loop c rx rnd p s = ?s1\<lparr>bailed := True\<rparr>"
      by (rule master_loop_bail)
    have "trace (?s1\<lparr>bailed := True\<rparr>) = trace s @ evs1"
      using evs1 by simp
    moreover have "\<forall>q\<in>set (acked evs1). \<exists>j<polls (?s1\<lparr>bailed := True\<rparr>). acceptable rx q j"
      using a1 by simp
    moreover have "polls s \<le> polls (?s1\<lparr>bailed := True\<rparr>)"
      using b1 by simp
    ultimately show ?thesis
      unfolding eq by blast
  next
    case advance
    let ?r = "master_loop c rx rnd (p + 1) ?s1"
    from advance have eq: "master_loop c rx rnd p s = ?r"
      by (rule master_loop_next)
    from advance have "polls ?s1 \<le> polls ?r
        \<and> (\<exists>evs. trace ?r = trace ?s1 @ evs
          \<and> (\<forall>q\<in>set (acked evs). \<exists>j<polls ?r. acceptable rx q j))"
      by (intro "1.IH") simp_all
    then obtain evs2 where le: "polls ?s1 \<le> polls ?r"
      and evs2: "trace ?r = trace ?s1 @ evs2"
        "\<forall>q\<in>set (acked evs2). \<exists>j<polls ?r. acceptable rx q j"
      by blast
    from a1 le have a1': "\<forall>q\<in>set (acked evs1). \<exists>j<polls ?r. acceptable rx q j"
      by (meson less_le_trans)
    have "trace ?r = trace s @ (evs1 @ evs2)"
      using evs1 evs2 by simp
    moreover have "\<forall>q\<in>set (acked (evs1 @ evs2)). \<exists>j<polls ?r. acceptable rx q j"
      using a1' evs2 by (auto simp: acked_append)
    moreover have "polls s \<le> polls ?r"
      using b1 le by simp
    ultimately show ?thesis
      unfolding eq by blast
  qed
qed

lemma run_master_acked_within:
  "\<forall>q\<in>set (acked (trace (run_master c rx rnd))).
     \<exists>j<polls (run_master c rx rnd). is_ack_for q (rx j)"
proof -
  obtain evs where "trace (master_loop c rx rnd 0 init_state) = trace init_state @ evs"
    and "\<forall>q\<in>set (acked evs). \<exists>j<polls (master_loop c rx rnd 0 init_state). acceptable rx q j"
    using master_loop_acked_within [of init_state c rx rnd 0] by blast
  moreover have "trace init_state = []"
    by (simp add: init_state_def)
  ultimately show ?thesis
    by (simp add: run_master_def acceptable_is_ack_for)
qed

lemma attempt_no_ack:
  "\<forall>k. \<not> acceptable rx p k \<Longrightarrow> \<not> ack_received (attempt rx p h pl s)"
  using attempt_bounds [of s rx p h pl] by blast

lemma prompt_ack_not_for_1: "\<not> acceptable prompt_ack_transport 1 k"
  by (simp add: acceptable_def prompt_ack_transport_def ack_frame_0_def master_check_def
      rx_pid_of_def PING_PACKET_ACK_def)

lemma duplicates_run:
  "acked (trace (run_master duplicates_cfg prompt_ack_transport zero_rand)) = [0]
   \<and> transmitted (trace (run_master duplicates_cfg prompt_ack_transport zero_rand)) = [0, 1, 1]
   \<and> bailed (run_master duplicates_cfg prompt_ack_transport zero_rand)"
proof -
  let ?c = duplicates_cfg and ?rx = prompt_ack_transport
  have c: "num_packets ?c = 3" "max_num_attempts ?c = 2" "tx_payload_len ?c = 200"
    by (simp_all add: duplicates_cfg_def)
  define s1 where "s1 = send_packet ?c ?rx zero_rand 0 init_state"
  define s2 where "s2 = send_packet ?c ?rx zero_rand 1 s1"
  \<comment> \<open>packet 0: acknowledged by the first call\<close>
  define s0 where "s0 = init_state\<lparr>rand_calls := 205, ack_received := False, num_attempts := 0\<rparr>"
  let ?h0 = "data_header zero_rand 0 0" and ?pl0 = "data_payload zero_rand 5 200"
  have sp0: "s1 = attempts ?c ?rx 0 ?h0 ?pl0 s0"
    by (simp add: s1_def send_packet_def Let_def s0_def init_state_def c)
  have "fst (await_ack ?rx 0 (False, 0, polls s0))"
    unfolding await_ack_fst using acceptable_prompt by (intro exI [of _ 0]) simp
  then have "ack_received (attempt ?rx 0 ?h0 ?pl0 s0)"
    by (simp add: attempt_simps)
  then have "attempts ?c ?rx 0 ?h0 ?pl0 s0 =
     (attempt ?rx 0 ?h0 ?pl0 s0)\<lparr>
        num_bytes_received := num_bytes_received s0 + ucast (tx_payload_len ?c),
        trace := trace s0 @ [Transmit 0 (num_attempts s0 + 1) ?h0 ?pl0, AckOk 0]\<rparr>"
    by (rule attempts_ack)
  with sp0 have f1: "num_attempts s1 = 1" "trace s1 = [Transmit 0 1 ?h0 ?pl0, AckOk 0]"
    by (simp_all add: attempt_simps s0_def init_state_def)
  \<comment> \<open>packet 1: two attempts, every packet found is the acknowledgement of packet 0\<close>
  define t0 where "t0 = s1\<lparr>rand_calls := rand_calls s1 + 5 + unat (tx_payload_len ?c),
      ack_received := False, num_attempts := 0\<rparr>"
  let ?h1 = "data_header zero_rand (rand_calls s1) 1"
    and ?pl1 = "data_payload zero_rand (rand_calls s1 + 5) (tx_payload_len ?c)"
  define t1 where "t1 = attempt ?rx 1 ?h1 ?pl1 t0"
  define t2 where "t2 = attempt ?rx 1 ?h1 ?pl1 t1"
  have sp1: "s2 = attempts ?c ?rx 1 ?h1 ?pl1 t0"
    by (simp add: s2_def send_packet_def Let_def t0_def)
  have na: "\<not> ack_received t1" "\<not> ack_received t2"
    unfolding t1_def t2_def by (simp_all add: attempt_no_ack prompt_ack_not_for_1)
  have n1: "num_attempts t1 = 1" and n2: "num_attempts t2 = 2"
    by (simp_all add: t2_def t1_def attempt_simps t0_def)
  have "attempts ?c ?rx 1 ?h1 ?pl1 t0 = attempts ?c ?rx 1 ?h1 ?pl1 t1"
    unfolding t1_def using na(1) by (intro attempts_retry) (simp_all add: t1_def t0_def c)
  also have "\<dots> = t2"
    unfolding t2_def using na(2) n1 by (intro attempts_stop) (simp_all add: t2_def c)
  finally have s2: "s2 = t2"
    by (simp add: sp1)
  have tr2: "trace t2 = trace s1 @ [Transmit 1 1 ?h1 ?pl1, Transmit 1 2 ?h1 ?pl1]"
    by (simp add: t2_def t1_def attempt_simps t0_def)
  \<comment> \<open>the loop over the ids\<close>
  have "run_master ?c ?rx zero_rand = master_loop ?c ?rx zero_rand 1 s1"
    unfolding run_master_def
    using master_loop_next [of 0 ?c ?rx zero_rand init_state] f1 by (simp add: c s1_def)
  also have "\<dots> = s2\<lparr>bailed := True\<rparr>"
    unfolding s2_def
    by (intro master_loop_bail) (simp_all add: c s2 [unfolded s2_def] n2)
  finally show ?thesis
    by (simp add: s2 tr2 f1)
qed

lemma fmul_at_least_one:
  assumes "\<And>x. 1 \<le> x \<Longrightarrow> at_least_one (rd x)"
    and "at_least_one x" and "at_least_one y"
  shows "at_least_one (fmul rd x y)"
proof (cases x)
  case (Finite a)
  with assms(2) have a: "1 \<le> a"
    by simp
  show ?thesis
  proof (cases y)
    case (Finite b)
    with assms(3) a have "1 * 1 \<le> a * b"
      by (intro mult_mono) simp_all
    then have "at_least_one (rd (a * b))"
      by (intro assms(1)) simp
    with Finite \<open>x = Finite a\<close> show ?thesis
      by simp
  next
    case PosInf
    with a \<open>x = Finite a\<close> show ?thesis
      by simp
  next
    case NegInf
    with assms(3) show ?thesis
      by simp
  next
    case NaN
    with assms(3) show ?thesis
      by simp
  qed
next
  case PosInf
  with assms(3) show ?thesis
    by (cases y) simp_all
next
  case NegInf
  with assms(2) show ?thesis
    by simp
next
  case NaN
  with assms(2) show ?thesis
    by simp
qed

lemma fdiv_by_zero:
  "at_least_one x \<Longrightarrow> fdiv rd x (Finite 0) = PosInf"
  by (cases x) simp_all

lemma fmul_by_zero:
  "rd 0 = Finite 0 \<Longrightarrow> at_least_one x \<Longrightarrow>
   fdiv rd (fmul rd x (Finite 0)) (Finite 0) = NaN"
  by (cases x) simp_all

section \<open>The claims\<close>

text \<open>
  C1. The run is to abort only when a packet id has used up \<open>max_num_attempts\<close>
  attempts without an accepted acknowledgement, and an acknowledgement on the last
  allowed attempt is to let the run go on to the next id. The test of line 262 compares
  the attempt counter alone. With two packets, one allowed attempt and a transport that
  acknowledges packet 0 at once, the program accepts the acknowledgement, adds the 200
  payload bytes to the counter and then bails after that single attempt: packet 1 is
  never transmitted.
\<close>

theorem ack_on_last_attempt_bails:
  "bailed (run_master two_packets_one_attempt_cfg prompt_ack_transport zero_rand)
   \<and> transmitted (trace (run_master two_packets_one_attempt_cfg prompt_ack_transport zero_rand)) = [0]
   \<and> acked (trace (run_master two_packets_one_attempt_cfg prompt_ack_transport zero_rand)) = [0]
   \<and> num_bytes_received (run_master two_packets_one_attempt_cfg prompt_ack_transport zero_rand) = 200
   \<and> num_attempts (run_master two_packets_one_attempt_cfg prompt_ack_transport zero_rand) = 1"
proof -
  let ?c = two_packets_one_attempt_cfg and ?h = "data_header zero_rand 0 0"
    and ?pl = "data_payload zero_rand 5 200"
  define s0 where "s0 = init_state\<lparr>rand_calls := 205, ack_received := False, num_attempts := 0\<rparr>"
  have sp: "send_packet ?c prompt_ack_transport zero_rand 0 init_state
      = attempts ?c prompt_ack_transport 0 ?h ?pl s0"
    by (simp add: send_packet_def Let_def s0_def init_state_def two_packets_one_attempt_cfg_def)
  have "fst (await_ack prompt_ack_transport 0 (False, 0, polls s0))"
    unfolding await_ack_fst using acceptable_prompt by (intro exI [of _ 0]) simp
  then have "ack_received (attempt prompt_ack_transport 0 ?h ?pl s0)"
    by (simp add: attempt_simps)
  then have "attempts ?c prompt_ack_transport 0 ?h ?pl s0 =
     (attempt prompt_ack_transport 0 ?h ?pl s0)\<lparr>
        num_bytes_received := num_bytes_received s0 + ucast (tx_payload_len ?c),
        trace := trace s0 @ [Transmit 0 (num_attempts s0 + 1) ?h ?pl, AckOk 0]\<rparr>"
    by (rule attempts_ack)
  with sp have s1: "send_packet ?c prompt_ack_transport zero_rand 0 init_state =
     (attempt prompt_ack_transport 0 ?h ?pl s0)\<lparr>
        num_bytes_received := 200,
        trace := [Transmit 0 1 ?h ?pl, AckOk 0]\<rparr>"
    by (simp add: s0_def init_state_def two_packets_one_attempt_cfg_def)
  then have "num_attempts (send_packet ?c prompt_ack_transport zero_rand 0 init_state) = 1"
    by (simp add: attempt_simps s0_def)
  then have "run_master ?c prompt_ack_transport zero_rand =
      (send_packet ?c prompt_ack_transport zero_rand 0 init_state)\<lparr>bailed := True\<rparr>"
    unfolding run_master_def
    by (intro master_loop_bail) (simp_all add: two_packets_one_attempt_cfg_def)
  with s1 show ?thesis
    by (simp add: attempt_simps s0_def)
qed

text \<open>
  C2. A packet that the slave discards is to cause no termination check. In the program
  every \<open>continue\<close> of the slave goes on at the condition of the \<open>do ... while\<close>.
  With six packets expected, a data packet with id 5 whose payload is invalid makes the
  slave leave its loop: no acknowledgement is sent and the byte counter stays at 0, but
  the session does not go back to polling. With one packet expected, a packet whose
  header is invalid does the same through the initial value 0 of \<open>rx_pid\<close>.
\<close>

theorem slave_exits_on_discarded_frame:
  "\<not> data_accepted corrupt_last_data
   \<and> run_slave six_packets_cfg corrupt_last_transport zero_rand 10
       = Exited (init_state\<lparr>polls := 1, rx_pid := 5\<rparr>)
   \<and> \<not> data_accepted garbled_frame
   \<and> run_slave one_packet_cfg garbled_transport zero_rand 10
       = Exited (init_state\<lparr>polls := 1\<rparr>)"
proof (intro conjI)
  show "\<not> data_accepted corrupt_last_data"
    by (simp add: data_accepted_def corrupt_last_data_def)
  show "\<not> data_accepted garbled_frame"
    by (simp add: data_accepted_def garbled_frame_def)
  have w1: "wait_packet corrupt_last_transport 10 (polls init_state) = Some 0"
    by (simp add: wait_packet.simps [of _ _ 0] init_state_def corrupt_last_transport_def
        corrupt_last_data_def)
  have b1: "slave_body zero_rand (corrupt_last_transport 0) (init_state\<lparr>polls := Suc 0\<rparr>)
      = init_state\<lparr>polls := 1, rx_pid := 5\<rparr>"
    by (simp add: slave_body_def Let_def corrupt_last_transport_def corrupt_last_data_def
        PING_PACKET_DATA_def rx_pid_of_def init_state_def)
  show "run_slave six_packets_cfg corrupt_last_transport zero_rand 10
       = Exited (init_state\<lparr>polls := 1, rx_pid := 5\<rparr>)"
    unfolding run_slave_def
    using slave_loop_exit [OF w1, of zero_rand six_packets_cfg]
    by (simp add: b1) (simp add: six_packets_cfg_def init_state_def)
  have w2: "wait_packet garbled_transport 10 (polls init_state) = Some 0"
    by (simp add: wait_packet.simps [of _ _ 0] init_state_def garbled_transport_def
        garbled_frame_def)
  have b2: "slave_body zero_rand (garbled_transport 0) (init_state\<lparr>polls := Suc 0\<rparr>)
      = init_state\<lparr>polls := 1\<rparr>"
    by (simp add: slave_body_def Let_def garbled_transport_def garbled_frame_def)
  show "run_slave one_packet_cfg garbled_transport zero_rand 10
       = Exited (init_state\<lparr>polls := 1\<rparr>)"
    unfolding run_slave_def
    using slave_loop_exit [OF w2, of zero_rand one_packet_cfg]
    by (simp add: b2) (simp add: one_packet_cfg_def init_state_def)
qed

text \<open>
  C3. The master is not to start on the next packet id before the current one is
  acknowledged or its attempts are used up, and in the second case no further id is to be
  attempted. With \<open>max_num_attempts = 0\<close> and a transport that never finds a packet,
  the program transmits packet 0 once, gets no acknowledgement during the 240 calls,
  and, since the counter 1 is not equal to 0 at line 262, goes on to transmit packet 1:
  the run ends without bailing and without a single acknowledgement.
\<close>

theorem zero_budget_never_bails:
  "\<not> bailed (run_master zero_attempts_cfg silent_transport zero_rand)
   \<and> transmitted (trace (run_master zero_attempts_cfg silent_transport zero_rand)) = [0, 1]
   \<and> acked (trace (run_master zero_attempts_cfg silent_transport zero_rand)) = []
   \<and> polls (run_master zero_attempts_cfg silent_transport zero_rand) = 480"
proof -
  let ?c = zero_attempts_cfg
  have c: "num_packets ?c = 2" "max_num_attempts ?c = 0" "tx_payload_len ?c = 200"
    by (simp_all add: zero_attempts_cfg_def)
  have sp: "send_packet ?c silent_transport zero_rand p s =
     s\<lparr>rand_calls := rand_calls s + 5 + unat (tx_payload_len ?c),
       num_attempts := 1, polls := polls s + 240, ack_received := False,
       trace := trace s @ [Transmit p 1 (data_header zero_rand (rand_calls s) p)
                  (data_payload zero_rand (rand_calls s + 5) (tx_payload_len ?c))]\<rparr>" for p s
    by (rule send_packet_single_attempt) (simp_all add: c silent_transport_silent)
  define s1 where "s1 = send_packet ?c silent_transport zero_rand 0 init_state"
  define s2 where "s2 = send_packet ?c silent_transport zero_rand 1 s1"
  have "run_master ?c silent_transport zero_rand = master_loop ?c silent_transport zero_rand 1 s1"
    unfolding run_master_def s1_def
    using master_loop_next [of 0 ?c silent_transport zero_rand init_state] by (simp add: c sp)
  also have "\<dots> = master_loop ?c silent_transport zero_rand 2 s2"
    unfolding s2_def
    using master_loop_next [of 1 ?c silent_transport zero_rand s1] by (simp add: c sp)
  also have "\<dots> = s2"
    by (intro master_loop_done) (simp add: c)
  finally show ?thesis
    by (simp add: s2_def s1_def sp init_state_def)
qed

text \<open>
  C4. The slave transmits an acknowledgement only for a packet whose header is valid,
  whose type byte is DATA and whose payload is valid. One pass of the loop body appends
  one acknowledgement to the trace when the three tests pass and nothing otherwise; and
  over a whole run, the acknowledgements sent are, in order, exactly those of the calls
  of \<open>iqpr_rxpacket\<close> that found a packet passing the three tests.
\<close>

theorem slave_acks_only_accepted_data:
  "trace (slave_body rnd r s) =
     trace s @ (if data_accepted r
                then [SendAck (ack_header rnd (rand_calls s) (rx_header r))
                              (ack_payload rnd (rand_calls s + 5))]
                else [])
   \<and> map id_and_type (sent_acks (trace (state_of (run_slave c rx rnd limit)))) =
       map (\<lambda>k. (h0 (rx_header (rx k)), h1 (rx_header (rx k)), PING_PACKET_ACK))
         (filter (\<lambda>k. packet_received (rx k) \<and> data_accepted (rx k))
            [0..<polls (state_of (run_slave c rx rnd limit))])"
proof
  show "trace (slave_body rnd r s) =
     trace s @ (if data_accepted r
                then [SendAck (ack_header rnd (rand_calls s) (rx_header r))
                              (ack_payload rnd (rand_calls s + 5))]
                else [])"
    by (cases "data_accepted r") (simp_all add: slave_body_accepted slave_body_discarded)
next
  have "polls init_state = 0" and "trace init_state = []"
    by (simp_all add: init_state_def)
  then show "map id_and_type (sent_acks (trace (state_of (run_slave c rx rnd limit)))) =
       map (\<lambda>k. (h0 (rx_header (rx k)), h1 (rx_header (rx k)), PING_PACKET_ACK))
         (filter (\<lambda>k. packet_received (rx k) \<and> data_accepted (rx k))
            [0..<polls (state_of (run_slave c rx rnd limit))])"
    using slave_loop_acks [of init_state limit c rx rnd]
    by (simp add: run_slave_def)
qed

text \<open>
  C5. The id correlation. The acknowledgement that the slave sends for an accepted data
  packet carries the two id bytes of that packet. The id that the master decodes is the
  number that the two bytes spell, high byte first, and the header of data packet \<open>p\<close>
  spells \<open>p mod 2 ^ 16\<close>. The master accepts a packet exactly when header and payload
  are valid, the type is ACK and the two bytes spell the outstanding \<open>tx_pid\<close>: the
  acknowledgement of data packet \<open>p\<close>, handed over intact, is accepted while \<open>p mod
  2 ^ 16\<close> is outstanding and refused as an id mismatch for every other outstanding id.
  A wait ends with an acknowledgement exactly when one of its 240 calls finds a valid ACK
  frame for the outstanding id. Over a whole run, every id that the master counts as
  acknowledged has a valid ACK frame for that very id among the calls made, and the
  acknowledged ids are strictly increasing, so a repeated or stray acknowledgement
  advances the master for no id other than its own and for no id twice.
\<close>

theorem ack_id_correlation:
  "map id_and_type (sent_acks (trace (slave_body rnd r s))) =
     map id_and_type (sent_acks (trace s)) @
       (if data_accepted r then [(h0 (rx_header r), h1 (rx_header r), PING_PACKET_ACK)] else [])
   \<and> unat (rx_pid_of h) = 256 * unat (h0 h) + unat (h1 h)
   \<and> 256 * unat (h0 (data_header rnd n p)) + unat (h1 (data_header rnd n p)) = unat p mod 2 ^ 16
   \<and> rx_pid_of (ack_header rnd n (rx_header r)) = rx_pid_of (rx_header r)
   \<and> (master_check k r = Accepted) =
       (rx_header_valid r \<and> h2 (rx_header r) = PING_PACKET_ACK \<and> rx_payload_valid r
        \<and> 256 * unat (h0 (rx_header r)) + unat (h1 (rx_header r)) = unat k)
   \<and> master_check k (delivered (ack_header rnd' m (data_header rnd n p))) =
       (if unat k = unat p mod 2 ^ 16 then Accepted else IdMismatch)
   \<and> fst (await_ack rx k (False, 0, j)) = (\<exists>i<240. is_ack_for k (rx (j + i)))
   \<and> (\<forall>q\<in>set (acked (trace (run_master c rx rnd))).
         \<exists>i<polls (run_master c rx rnd). is_ack_for q (rx i))
   \<and> sorted_wrt (<) (acked (trace (run_master c rx rnd)))
   \<and> distinct (acked (trace (run_master c rx rnd)))"
proof (intro conjI)
  show "map id_and_type (sent_acks (trace (slave_body rnd r s))) =
     map id_and_type (sent_acks (trace s)) @
       (if data_accepted r then [(h0 (rx_header r), h1 (rx_header r), PING_PACKET_ACK)] else [])"
    by (rule slave_body_acks)
  show "unat (rx_pid_of h) = 256 * unat (h0 h) + unat (h1 h)"
    by (rule rx_pid_of_bytes)
  show "256 * unat (h0 (data_header rnd n p)) + unat (h1 (data_header rnd n p)) = unat p mod 2 ^ 16"
    by (rule data_header_bytes)
  show "rx_pid_of (ack_header rnd n (rx_header r)) = rx_pid_of (rx_header r)"
    by (rule rx_pid_of_ack_header)
  show "(master_check k r = Accepted) =
       (rx_header_valid r \<and> h2 (rx_header r) = PING_PACKET_ACK \<and> rx_payload_valid r
        \<and> 256 * unat (h0 (rx_header r)) + unat (h1 (rx_header r)) = unat k)"
    by (rule master_check_bytes)
  show "master_check k (delivered (ack_header rnd' m (data_header rnd n p))) =
       (if unat k = unat p mod 2 ^ 16 then Accepted else IdMismatch)"
    by (rule master_check_delivered)
  show "fst (await_ack rx k (False, 0, j)) = (\<exists>i<240. is_ack_for k (rx (j + i)))"
    by (simp only: await_ack_fst acceptable_is_ack_for)
  show "\<forall>q\<in>set (acked (trace (run_master c rx rnd))).
         \<exists>i<polls (run_master c rx rnd). is_ack_for q (rx i)"
    by (rule run_master_acked_within)
  show sorted: "sorted_wrt (<) (acked (trace (run_master c rx rnd)))"
    using run_master_acked by blast
  then show "distinct (acked (trace (run_master c rx rnd)))"
    using strict_sorted_iff by blast
qed

theorem ack_id_correlation_witness:
  "acked (trace (run_master duplicates_cfg prompt_ack_transport zero_rand)) = [0]
   \<and> transmitted (trace (run_master duplicates_cfg prompt_ack_transport zero_rand)) = [0, 1, 1]
   \<and> bailed (run_master duplicates_cfg prompt_ack_transport zero_rand)
   \<and> (\<exists>i<polls (run_master duplicates_cfg prompt_ack_transport zero_rand).
         is_ack_for 0 (prompt_ack_transport i))
   \<and> master_check 5 (delivered (ack_header zero_rand 0 (data_header zero_rand 0 5))) = Accepted
   \<and> master_check 6 (delivered (ack_header zero_rand 0 (data_header zero_rand 0 5))) = IdMismatch
   \<and> unat (rx_pid_of \<lparr> h0 = 18, h1 = 52, h2 = 77, fill = [] \<rparr>) = 4660"
  using ack_id_correlation [where c = duplicates_cfg and rx = prompt_ack_transport
      and rnd = zero_rand and rnd' = zero_rand and m = 0 and n = 0 and p = 5 and k = 5
      and h = "\<lparr> h0 = 18, h1 = 52, h2 = 77, fill = [] \<rparr>"]
    ack_id_correlation [where rnd = zero_rand and rnd' = zero_rand and m = 0 and n = 0
      and p = 5 and k = 6]
    duplicates_run
  by simp

text \<open>
  C6, as stated, without a condition on the number of packets: with one allowed attempt
  and a silent transport the run transmits packet 0 once and bails. With \<open>-N 0\<close> the
  loop over the ids is not entered: nothing is transmitted and the run does not bail.
\<close>

theorem single_attempt_counterexample:
  "max_num_attempts no_packets_cfg = 1
   \<and> transmitted (trace (run_master no_packets_cfg silent_transport zero_rand)) = []
   \<and> transmitted (trace (run_master no_packets_cfg silent_transport zero_rand)) \<noteq> [0]
   \<and> \<not> bailed (run_master no_packets_cfg silent_transport zero_rand)"
  by (simp add: run_master_def master_loop_done no_packets_cfg_def init_state_def)

text \<open>
  C6. With at least one packet to send, \<open>max_num_attempts = 1\<close> and a transport
  whose calls never find a packet, the run transmits packet 0 exactly once, waits the 240
  calls of one window and bails: the trace holds that single transmission, the byte
  counter is still 0 and no later id is transmitted.
\<close>

theorem single_attempt_then_abort:
  assumes "0 < num_packets c" and "max_num_attempts c = 1"
    and "\<forall>k. \<not> packet_received (rx k)"
  shows "run_master c rx rnd =
     init_state\<lparr>rand_calls := 5 + unat (tx_payload_len c),
       num_attempts := 1,
       polls := 240,
       trace := [Transmit 0 1 (data_header rnd 0 0) (data_payload rnd 5 (tx_payload_len c))],
       bailed := True\<rparr>"
proof -
  from assms(2,3) have "send_packet c rx rnd 0 init_state =
     init_state\<lparr>rand_calls := 5 + unat (tx_payload_len c),
       num_attempts := 1, polls := 240, ack_received := False,
       trace := [Transmit 0 1 (data_header rnd 0 0) (data_payload rnd 5 (tx_payload_len c))]\<rparr>"
    by (subst send_packet_single_attempt) (simp_all add: init_state_def)
  with assms(1,2) show ?thesis
    by (simp add: run_master_def master_loop_bail init_state_def)
qed

theorem single_attempt_then_abort_witness:
  "0 < num_packets one_attempt_cfg \<and> max_num_attempts one_attempt_cfg = 1
   \<and> (\<forall>k. \<not> packet_received (silent_transport k))
   \<and> transmitted (trace (run_master one_attempt_cfg silent_transport zero_rand)) = [0]
   \<and> bailed (run_master one_attempt_cfg silent_transport zero_rand)
   \<and> num_bytes_received (run_master one_attempt_cfg silent_transport zero_rand) = 0
   \<and> polls (run_master one_attempt_cfg silent_transport zero_rand) = 240"
proof -
  have "0 < num_packets one_attempt_cfg" and "max_num_attempts one_attempt_cfg = 1"
    by (simp_all add: one_attempt_cfg_def)
  moreover have "\<forall>k. \<not> packet_received (silent_transport k)"
    by (simp add: silent_transport_silent)
  ultimately show ?thesis
    using single_attempt_then_abort [of one_attempt_cfg silent_transport zero_rand]
    by (simp add: init_state_def)
qed

text \<open>
  C7. When no call of the first window for packet 0 finds a packet and a call of the
  second window finds a valid acknowledgement of packet 0, packet 0 is transmitted
  exactly twice in the whole run (the attempt counter reaches 2) and its payload length
  is added to the byte counter exactly once. A second window exists when there is a
  packet to send and more than one attempt is allowed.
\<close>

theorem second_window_ack:
  assumes "0 < num_packets c" and "1 < max_num_attempts c"
    and "\<forall>k<240. \<not> packet_received (rx k)"
    and "j < 240" and "acceptable rx 0 (240 + j)"
  shows "num_attempts (send_packet c rx rnd 0 init_state) = 2
    \<and> num_bytes_received (send_packet c rx rnd 0 init_state)
        = num_bytes_received init_state + ucast (tx_payload_len c)
    \<and> take 3 (trace (run_master c rx rnd)) =
        [Transmit 0 1 (data_header rnd 0 0) (data_payload rnd 5 (tx_payload_len c)),
         Transmit 0 2 (data_header rnd 0 0) (data_payload rnd 5 (tx_payload_len c)),
         AckOk 0]
    \<and> count_list (transmitted (trace (run_master c rx rnd))) 0 = 2
    \<and> count_list (acked (trace (run_master c rx rnd))) 0 = 1"
proof -
  let ?s1 = "send_packet c rx rnd 0 init_state"
  let ?evs = "[Transmit 0 1 (data_header rnd 0 0) (data_payload rnd 5 (tx_payload_len c)),
         Transmit 0 2 (data_header rnd 0 0) (data_payload rnd 5 (tx_payload_len c)),
         AckOk 0]"
  from assms(2-5) obtain k pid where s1: "?s1 =
    init_state\<lparr>rand_calls := 5 + unat (tx_payload_len c),
       num_attempts := 2, polls := k, rx_pid := pid, ack_received := True,
       num_bytes_received := ucast (tx_payload_len c), trace := ?evs\<rparr>"
    using send_packet_second_attempt by blast
  then have fields: "num_attempts ?s1 = 2" "trace ?s1 = ?evs"
    "num_bytes_received ?s1 = num_bytes_received init_state + ucast (tx_payload_len c)"
    by (simp_all add: init_state_def)
  have "\<exists>evs. trace (run_master c rx rnd) = ?evs @ evs
      \<and> (\<forall>q\<in>set (transmitted evs). 1 \<le> q) \<and> (\<forall>q\<in>set (acked evs). 1 \<le> q)"
  proof (cases "num_attempts ?s1 = max_num_attempts c")
    case True
    with assms(1) fields show ?thesis
      by (simp add: run_master_def master_loop_bail)
  next
    case False
    with assms(1) have "run_master c rx rnd = master_loop c rx rnd (0 + 1) ?s1"
      by (simp add: run_master_def master_loop_next)
    with fields show ?thesis
      using master_loop_trace [of c rx rnd 1 ?s1] by auto
  qed
  then obtain evs where "trace (run_master c rx rnd) = ?evs @ evs"
    and "count_list (transmitted evs) 0 = 0" and "count_list (acked evs) 0 = 0"
    using count_list_above by blast
  with fields show ?thesis
    by (simp add: transmitted_append acked_append)
qed

theorem second_window_ack_witness:
  "0 < num_packets retry_cfg \<and> 1 < max_num_attempts retry_cfg
   \<and> acceptable late_ack_transport 0 (240 + 60)
   \<and> num_attempts (send_packet retry_cfg late_ack_transport zero_rand 0 init_state) = 2
   \<and> num_bytes_received (send_packet retry_cfg late_ack_transport zero_rand 0 init_state) = 200
   \<and> count_list (transmitted (trace (run_master retry_cfg late_ack_transport zero_rand))) 0 = 2
   \<and> count_list (acked (trace (run_master retry_cfg late_ack_transport zero_rand))) 0 = 1"
proof -
  have "0 < num_packets retry_cfg" and "1 < max_num_attempts retry_cfg"
    by (simp_all add: retry_cfg_def)
  moreover have "\<forall>k<240. \<not> packet_received (late_ack_transport k)"
    by (simp add: late_ack_transport_def no_packet_def)
  moreover have "(60::nat) < 240"
    by simp
  moreover have "acceptable late_ack_transport 0 (240 + 60)"
    by (simp add: acceptable_def late_ack_transport_def ack_frame_0_def master_check_def
        rx_pid_of_def PING_PACKET_ACK_def)
  ultimately show ?thesis
    using second_window_ack [of retry_cfg late_ack_transport 60 zero_rand]
    by (simp add: retry_cfg_def init_state_def)
qed

text \<open>
  C8, as stated: with an elapsed time of zero the data rate and the spectral efficiency
  are reported as undefined or zero. With equal clock readings, 200 bytes counted and a
  bandwidth of 200 kHz, the program divides 1600 by 0: both values are the positive
  infinity.
\<close>

theorem zero_runtime_counterexample:
  "runtime exact_results same_reading same_reading = Finite 0
   \<and> data_rate exact_results 200 (runtime exact_results same_reading same_reading) = PosInf
   \<and> spectral_efficiency exact_results
        (data_rate exact_results 200 (runtime exact_results same_reading same_reading))
        (Finite 200000) = PosInf"
  by (simp add: runtime_def data_rate_def spectral_efficiency_def exact_results_def)

text \<open>
  C8. The statistics have no guard against an elapsed time of zero: the data rate is the
  quotient of line 362 whatever \<open>runtime\<close> is. With equal clock readings \<open>runtime\<close> is 0,
  and the division does not fail: the data rate is NaN when no byte was counted and the
  positive infinity otherwise, and so is the spectral efficiency for a positive
  bandwidth. This holds for every rounding that keeps 0, gives a finite \<open>1e-6f\<close> and
  takes no value from 1 on below 1.
\<close>

theorem zero_runtime_unguarded:
  assumes "rd 0 = Finite 0" and "rd (1 / 1000000) = Finite u"
    and "\<And>x. 1 \<le> x \<Longrightarrow> at_least_one (rd x)"
    and "timer1 = timer0" and "0 < b"
  shows "runtime rd timer0 timer1 = Finite 0
    \<and> data_rate rd n (runtime rd timer0 timer1) = (if n = 0 then NaN else PosInf)
    \<and> spectral_efficiency rd (data_rate rd n (runtime rd timer0 timer1)) (Finite b)
        = (if n = 0 then NaN else PosInf)"
proof -
  from assms(1,2,4) have rt: "runtime rd timer0 timer1 = Finite 0"
    by (simp add: runtime_def)
  have dr: "data_rate rd n (Finite 0) = (if n = 0 then NaN else PosInf)"
  proof (cases "n = 0")
    case True
    have "at_least_one (rd 8)"
      by (rule assms(3)) simp
    with assms(1) have "fdiv rd (fmul rd (rd 8) (Finite 0)) (Finite 0) = NaN"
      by (intro fmul_by_zero)
    with True assms(1) show ?thesis
      by (simp add: data_rate_def)
  next
    case False
    then have "1 \<le> unat n"
      by (simp add: unat_gt_0 Suc_leI)
    then have "(1::real) \<le> of_nat (unat n)"
      by (metis of_nat_1 of_nat_le_iff)
    then have "at_least_one (rd (of_nat (unat n)))"
      by (rule assms(3))
    moreover have "at_least_one (rd 8)"
      by (rule assms(3)) simp
    ultimately have "at_least_one (fmul rd (rd 8) (rd (of_nat (unat n))))"
      using assms(3) by (intro fmul_at_least_one)
    then have "fdiv rd (fmul rd (rd 8) (rd (of_nat (unat n)))) (Finite 0) = PosInf"
      by (rule fdiv_by_zero)
    with False show ?thesis
      by (simp add: data_rate_def)
  qed
  from assms(5) have "spectral_efficiency rd (if n = 0 then NaN else PosInf) (Finite b)
      = (if n = 0 then NaN else PosInf)"
    by (simp add: spectral_efficiency_def)
  with rt dr show ?thesis
    by simp
qed

theorem zero_runtime_unguarded_witness:
  "exact_results 0 = Finite 0 \<and> exact_results (1 / 1000000) = Finite (1 / 1000000)
   \<and> at_least_one (exact_results 8) \<and> (0::real) < 200000
   \<and> runtime exact_results same_reading same_reading = Finite 0
   \<and> data_rate exact_results 200 (runtime exact_results same_reading same_reading) = PosInf
   \<and> data_rate exact_results 0 (runtime exact_results same_reading same_reading) = NaN"
proof -
  have r: "\<And>x. 1 \<le> x \<Longrightarrow> at_least_one (exact_results x)"
    and z: "exact_results 0 = Finite 0"
    and m: "exact_results (1 / 1000000) = Finite (1 / 1000000)"
    by (simp_all add: exact_results_def)
  have b: "(0::real) < 200000"
    by simp
  note a = zero_runtime_unguarded [OF z m r refl b, of same_reading 200]
    and c = zero_runtime_unguarded [OF z m r refl b, of same_reading 0]
  have "runtime exact_results same_reading same_reading = Finite 0"
    using a by (rule conjunct1)
  moreover have
    "data_rate exact_results 200 (runtime exact_results same_reading same_reading) = PosInf"
    using a [THEN conjunct2, THEN conjunct1] by simp
  moreover have
    "data_rate exact_results 0 (runtime exact_results same_reading same_reading) = NaN"
    using c [THEN conjunct2, THEN conjunct1] by simp
  ultimately show ?thesis
    using z m r [of 8] b by simp
qed

text \<open>
  C9. The header carries the low 16 bits of the packet id, while \<open>tx_pid\<close>,
  \<open>rx_pid\<close> and \<open>num_packets\<close> are 32-bit. The id decoded from the acknowledgement of
  data packet \<open>p\<close> is \<open>p mod 2 ^ 16\<close>. For an outstanding id of \<open>2 ^ 16\<close> or more no
  packet passes the master's tests and no wait ends with an acknowledgement. When
  \<open>num_packets\<close> exceeds \<open>2 ^ 16\<close>, no decoded id equals \<open>num_packets - 1\<close>, the slave
  never leaves its loop, the master never acknowledges an id from \<open>2 ^ 16\<close> on, and
  with at least one allowed attempt the master's run bails.
\<close>

theorem ids_beyond_16_bits:
  assumes "2 ^ 16 < num_packets c"
  shows "unat (rx_pid_of (ack_header rnd n (data_header rnd' m p))) = unat p mod 2 ^ 16
    \<and> (2 ^ 16 \<le> p \<longrightarrow> master_check p r \<noteq> Accepted \<and> \<not> fst (await_ack rx p (False, 0, k)))
    \<and> rx_pid_of h \<noteq> num_packets c - 1
    \<and> (\<exists>s'. run_slave c rx rnd limit = Polling s')
    \<and> (\<forall>q\<in>set (acked (trace (run_master c rx rnd))). q < 2 ^ 16)
    \<and> (max_num_attempts c \<noteq> 0 \<longrightarrow> bailed (run_master c rx rnd))"
proof (intro conjI impI)
  show "unat (rx_pid_of (ack_header rnd n (data_header rnd' m p))) = unat p mod 2 ^ 16"
    by (simp only: rx_pid_of_ack_header unat_rx_pid_of_data_header)
  show "master_check p r \<noteq> Accepted" if "2 ^ 16 \<le> p"
    using that by (rule master_check_beyond_16_bits)
  show "\<not> fst (await_ack rx p (False, 0, k))" if "2 ^ 16 \<le> p"
    using that by (simp add: await_ack_fst acceptable_def master_check_beyond_16_bits)
  show "rx_pid_of h \<noteq> num_packets c - 1"
    using assms by (rule slave_terminal_unreachable)
  show "\<exists>s'. run_slave c rx rnd limit = Polling s'"
    unfolding run_slave_def using assms
    by (rule slave_loop_never_exits) (simp add: init_state_def)
  show "\<forall>q\<in>set (acked (trace (run_master c rx rnd))). q < 2 ^ 16"
    using run_master_acked [of c rx rnd] acceptable_less by blast
  show "bailed (run_master c rx rnd)" if "max_num_attempts c \<noteq> 0"
    unfolding run_master_def using assms that
    by (intro master_loop_bails_beyond_16_bits) simp_all
qed

theorem ids_beyond_16_bits_witness:
  "2 ^ 16 < num_packets big_cfg
   \<and> unat (rx_pid_of (ack_header zero_rand 0 (data_header zero_rand 0 65541))) = 5
   \<and> master_check 65536 no_packet \<noteq> Accepted
   \<and> (\<exists>s'. run_slave big_cfg silent_transport zero_rand 3 = Polling s')
   \<and> bailed (run_master big_cfg silent_transport zero_rand)"
  using ids_beyond_16_bits [where c = big_cfg and rnd = zero_rand and n = 0
      and rnd' = zero_rand and m = 0 and p = 65541 and r = no_packet
      and rx = silent_transport and k = 0 and h = "rx_header no_packet" and limit = 3]
    ids_beyond_16_bits [where c = big_cfg and p = 65536 and r = no_packet]
  by (simp add: big_cfg_def)

text \<open>
  C10. The wait for an acknowledgement always ends. The timer starts at 0 and grows by
  \<open>timespec\<close> with every call of \<open>iqpr_rxpacket\<close>, whatever the call took: when no call
  of the window finds an acceptable acknowledgement, the loop makes exactly 240 calls,
  the quotient of \<open>ack_timeout\<close> by \<open>timespec\<close> rounded up, and ends without an
  acknowledgement; otherwise it ends right after the first call whose packet is
  acceptable, call number \<open>j\<close> of the window, with the timer at \<open>timespec * (j + 1)\<close>.
\<close>

theorem await_ack_polls:
  "await_ack rx tx_pid (False, 0, k) =
     (case find (\<lambda>j. acceptable rx tx_pid (k + j)) [0..<240] of
        None \<Rightarrow> (False, ack_timeout, k + 240)
      | Some j \<Rightarrow> (True, timespec * of_nat (Suc j), k + Suc j))
   \<and> (unat ack_timeout + unat timespec - 1) div unat timespec = 240"
proof
  show "await_ack rx tx_pid (False, 0, k) =
     (case find (\<lambda>j. acceptable rx tx_pid (k + j)) [0..<240] of
        None \<Rightarrow> (False, ack_timeout, k + 240)
      | Some j \<Rightarrow> (True, timespec * of_nat (Suc j), k + Suc j))"
    by (rule await_ack_window)
next
  show "(unat ack_timeout + unat timespec - 1) div unat timespec = 240"
    by (simp add: ack_timeout_def timespec_def)
qed

end
